theory Spec2Isabelle
  imports Main
begin

section \<open>Strings as the handlers use them\<close>

text \<open>
  \<^verbatim>\<open>server.py\<close> is two request handlers on top of library functions: \<^verbatim>\<open>safe_join\<close> and
  \<^verbatim>\<open>send_from_directory\<close> of werkzeug and Flask, \<^verbatim>\<open>os.path\<close>, \<^verbatim>\<open>os.listdir\<close> and
  \<^verbatim>\<open>urllib.parse.unquote\<close>. The handlers are translated from \<^verbatim>\<open>server.py\<close>; the library
  functions they call are translated from the libraries' own Python sources, each under
  its own name, and the file system they read is a tree.

  Python strings are modelled as \<^typ>\<open>string\<close>, a list of 8-bit characters. All paths
  are POSIX paths (the separator is the slash); the server of \<^verbatim>\<open>server.py\<close> lives under
  \<^verbatim>\<open>/Users/...\<close>, so \<^verbatim>\<open>os.path\<close> is \<^verbatim>\<open>posixpath\<close> and werkzeug's list of alternative
  separators is empty.
\<close>

definition sep :: char where
  "sep = CHR ''/''"

text \<open>\<^verbatim>\<open>s.split(sep)\<close>: never empty, \<^verbatim>\<open>"".split("/") == [""]\<close>.\<close>

fun str_split :: "char \<Rightarrow> string \<Rightarrow> string list" where
  "str_split d [] = [[]]"
| "str_split d (c # cs) =
     (if c = d then [] # str_split d cs
      else (case str_split d cs of
              [] \<Rightarrow> [[c]]
            | x # xs \<Rightarrow> (c # x) # xs))"

text \<open>\<^verbatim>\<open>sep.join(comps)\<close>.\<close>

fun str_join :: "string \<Rightarrow> string list \<Rightarrow> string" where
  "str_join d [] = []"
| "str_join d [x] = x"
| "str_join d (x # y # ys) = x @ d @ str_join d (y # ys)"

text \<open>\<^verbatim>\<open>s.startswith(p)\<close> and \<^verbatim>\<open>s.endswith(p)\<close>.\<close>

definition startswith :: "string \<Rightarrow> string \<Rightarrow> bool" where
  "startswith s p = (take (length p) s = p)"

definition endswith :: "string \<Rightarrow> string \<Rightarrow> bool" where
  "endswith s p = (length p \<le> length s \<and> drop (length s - length p) s = p)"

text \<open>
  \<^verbatim>\<open>s.lower()\<close>, on the ASCII letters. (Python lowers every cased Unicode character; the
  8-bit characters of the model have no case outside \<^verbatim>\<open>A-Z\<close>.)
\<close>

definition lower_char :: "char \<Rightarrow> char" where
  "lower_char c =
     (if 65 \<le> (of_char c :: nat) \<and> (of_char c :: nat) \<le> 90
      then char_of ((of_char c :: nat) + 32) else c)"

definition lower :: "string \<Rightarrow> string" where
  "lower s = map lower_char s"

subsection \<open>\<^verbatim>\<open>urllib.parse.unquote\<close>\<close>

text \<open>
  Every \<^verbatim>\<open>%XX\<close> with two hexadecimal digits becomes the character of that code; a
  percent sign not followed by two hexadecimal digits stays. (Python decodes the bytes
  of a run of escapes as UTF-8; the model agrees with it on escapes below \<^verbatim>\<open>%80\<close>.)
\<close>

definition hex_digit :: "char \<Rightarrow> nat option" where
  "hex_digit c =
     (let n = (of_char c :: nat) in
      if 48 \<le> n \<and> n \<le> 57 then Some (n - 48)
      else if 65 \<le> n \<and> n \<le> 70 then Some (n - 55)
      else if 97 \<le> n \<and> n \<le> 102 then Some (n - 87)
      else None)"

fun unquote :: "string \<Rightarrow> string" where
  "unquote (c # h # l # rest) =
     (case (if c = CHR ''%'' then hex_digit h else None, hex_digit l) of
        (Some a, Some b) \<Rightarrow> char_of (16 * a + b) # unquote rest
      | _ \<Rightarrow> c # unquote (h # l # rest))"
| "unquote cs = cs"

section \<open>\<^verbatim>\<open>posixpath\<close>\<close>

text \<open>\<^verbatim>\<open>os.path.isabs(s)\<close> is \<^verbatim>\<open>s.startswith("/")\<close>.\<close>

definition isabs :: "string \<Rightarrow> bool" where
  "isabs s = startswith s [sep]"

text \<open>
  \<^verbatim>\<open>os.path.join(a, b)\<close> with one component to add: an absolute \<^verbatim>\<open>b\<close> replaces
  \<^verbatim>\<open>a\<close>; otherwise \<^verbatim>\<open>b\<close> is appended, after a slash unless \<^verbatim>\<open>a\<close> is empty or ends
  with one.
\<close>

definition path_join :: "string \<Rightarrow> string \<Rightarrow> string" where
  "path_join a b =
     (if startswith b [sep] then b
      else if a = [] \<or> endswith a [sep] then a @ b
      else a @ [sep] @ b)"

text \<open>\<^verbatim>\<open>os.path.basename(p)\<close> is \<^verbatim>\<open>p[p.rfind("/") + 1:]\<close>.\<close>

definition basename :: "string \<Rightarrow> string" where
  "basename p = rev (takeWhile (\<lambda>c. c \<noteq> sep) (rev p))"

text \<open>
  The loop of \<^verbatim>\<open>os.path.normpath\<close> over the components: empty and \<^verbatim>\<open>.\<close> components
  are skipped; a component is appended unless it is \<^verbatim>\<open>..\<close> and there is something to
  pop (a relative path keeps its leading \<^verbatim>\<open>..\<close>s, an absolute one drops them).
\<close>

fun normpath_loop :: "nat \<Rightarrow> string list \<Rightarrow> string list \<Rightarrow> string list" where
  "normpath_loop initial_slashes [] new_comps = new_comps"
| "normpath_loop initial_slashes (c # comps) new_comps =
     (if c = [] \<or> c = ''.'' then normpath_loop initial_slashes comps new_comps
      else if c \<noteq> ''..'' \<or> (initial_slashes = 0 \<and> new_comps = [])
               \<or> (new_comps \<noteq> [] \<and> last new_comps = ''..'')
        then normpath_loop initial_slashes comps (new_comps @ [c])
      else if new_comps \<noteq> [] then normpath_loop initial_slashes comps (butlast new_comps)
      else normpath_loop initial_slashes comps new_comps)"

definition normpath :: "string \<Rightarrow> string" where
  "normpath path =
     (if path = [] then ''.''
      else
        let initial_slashes =
              (if startswith path [sep]
               then (if startswith path [sep, sep] \<and> \<not> startswith path [sep, sep, sep]
                     then 2 else 1)
               else 0);
            comps = normpath_loop initial_slashes (str_split sep path) [];
            path' = replicate initial_slashes sep @ str_join [sep] comps
        in if path' = [] then ''.'' else path')"

section \<open>\<^verbatim>\<open>werkzeug.utils.safe_join\<close>\<close>

text \<open>
  With one untrusted component. An empty directory stands for \<^verbatim>\<open>.\<close>; an empty component
  is not normalised; the result is \<^verbatim>\<open>None\<close> when the normalised component is absolute,
  is \<^verbatim>\<open>..\<close> or starts with \<^verbatim>\<open>../\<close>, and the plain \<^verbatim>\<open>posixpath.join\<close> otherwise.
\<close>

definition safe_join :: "string \<Rightarrow> string \<Rightarrow> string option" where
  "safe_join directory0 filename0 =
     (let directory = (if directory0 = [] then ''.'' else directory0);
          filename = (if filename0 \<noteq> [] then normpath filename0 else filename0)
      in if isabs filename \<or> filename = ''..'' \<or> startswith filename ''../''
         then None
         else Some (path_join directory filename))"

section \<open>The file system\<close>

text \<open>
  A tree of regular files (with their bytes) and directories. A directory carries its
  entries in the order \<^verbatim>\<open>os.listdir\<close> reports them, and a flag telling whether it may be
  listed (the read permission). There are no symbolic links, names are compared exactly
  (a case-sensitive volume), and the working directory of the process is the root of the
  tree; \<^verbatim>\<open>PROJECT_ROOT\<close> is absolute, so the working directory is never consulted.
\<close>

datatype node = File string | Dir bool "(string \<times> node) list"

text \<open>
  Path resolution, component by component. The first argument is the chain of
  directories entered so far, innermost first, so that \<^verbatim>\<open>..\<close> can step back; the root
  is its own parent. A component after a regular file fails (ENOTDIR), a missing name
  fails (ENOENT).
\<close>

fun walk :: "node list \<Rightarrow> string list \<Rightarrow> node list option" where
  "walk st [] = Some st"
| "walk [] (c # cs) = None"
| "walk (File b # up) (c # cs) = None"
| "walk (Dir r es # up) (c # cs) =
     (if c = [] \<or> c = ''.'' then walk (Dir r es # up) cs
      else if c = ''..'' then walk (if up = [] then [Dir r es] else up) cs
      else (case map_of es c of
              None \<Rightarrow> None
            | Some n \<Rightarrow> walk (n # Dir r es # up) cs))"

datatype exn = NotFound | TypeError | ValueError | OSError

text \<open>
  \<^verbatim>\<open>os.stat(path)\<close>: the node a path names. An embedded NUL raises \<^verbatim>\<open>ValueError\<close>, the
  empty path and every failed resolution \<^verbatim>\<open>OSError\<close>.
\<close>

definition os_stat :: "node \<Rightarrow> string \<Rightarrow> exn + node" where
  "os_stat fs path =
     (if CHR 0x00 \<in> set path then Inl ValueError
      else if path = [] then Inl OSError
      else (case walk [fs] (str_split sep path) of
              Some (n # up) \<Rightarrow> Inr n
            | _ \<Rightarrow> Inl OSError))"

text \<open>
  \<^verbatim>\<open>os.path.exists\<close> and \<^verbatim>\<open>os.path.isfile\<close> answer \<^verbatim>\<open>False\<close> on \<^verbatim>\<open>OSError\<close> and
  \<^verbatim>\<open>ValueError\<close>; called with \<^verbatim>\<open>None\<close> (a failed \<^verbatim>\<open>safe_join\<close>) they raise
  \<^verbatim>\<open>TypeError\<close>.
\<close>

definition os_path_exists :: "node \<Rightarrow> string option \<Rightarrow> exn + bool" where
  "os_path_exists fs path =
     (case path of
        None \<Rightarrow> Inl TypeError
      | Some p \<Rightarrow> (case os_stat fs p of Inl e \<Rightarrow> Inr False | Inr n \<Rightarrow> Inr True))"

definition os_path_isfile :: "node \<Rightarrow> string option \<Rightarrow> exn + bool" where
  "os_path_isfile fs path =
     (case path of
        None \<Rightarrow> Inl TypeError
      | Some p \<Rightarrow> (case os_stat fs p of Inr (File b) \<Rightarrow> Inr True | _ \<Rightarrow> Inr False))"

text \<open>
  \<^verbatim>\<open>os.listdir(path)\<close>: the names of the entries; it raises when the path is missing, is
  not a directory or may not be read.
\<close>

definition os_listdir :: "node \<Rightarrow> string \<Rightarrow> exn + string list" where
  "os_listdir fs path =
     (case os_stat fs path of
        Inl e \<Rightarrow> Inl e
      | Inr (File b) \<Rightarrow> Inl OSError
      | Inr (Dir r es) \<Rightarrow> (if r then Inr (map fst es) else Inl OSError))"

section \<open>Responses\<close>

text \<open>
  A handler returns the response \<^verbatim>\<open>send_file\<close> builds: the path of the file that is
  sent and its bytes. \<^verbatim>\<open>abort(404)\<close> raises \<^verbatim>\<open>NotFound\<close>.
\<close>

datatype response = Response (sent_path: string) (body: string)

text \<open>
  \<^verbatim>\<open>send_from_directory(directory, path)\<close>: joins safely, raises \<^verbatim>\<open>NotFound\<close> when the
  join fails or the result is not a regular file, and sends the file otherwise.
\<close>

definition send_from_directory :: "node \<Rightarrow> string \<Rightarrow> string \<Rightarrow> exn + response" where
  "send_from_directory fs directory path =
     (case safe_join directory path of
        None \<Rightarrow> Inl NotFound
      | Some p \<Rightarrow>
          (case os_stat fs p of
             Inr (File b) \<Rightarrow> Inr (Response p b)
           | _ \<Rightarrow> Inl NotFound))"

section \<open>The handlers of \<^verbatim>\<open>server.py\<close>\<close>

text \<open>
  The condition \<^verbatim>\<open>not os.path.exists(safe_path) or not os.path.isfile(safe_path)\<close>,
  evaluated left to right.
\<close>

definition not_a_file :: "node \<Rightarrow> string option \<Rightarrow> exn + bool" where
  "not_a_file fs safe_path =
     (case os_path_exists fs safe_path of
        Inl e \<Rightarrow> Inl e
      | Inr ex \<Rightarrow>
          if \<not> ex then Inr True
          else (case os_path_isfile fs safe_path of
                  Inl e \<Rightarrow> Inl e
                | Inr isf \<Rightarrow> Inr (\<not> isf)))"

text \<open>
  \<^verbatim>\<open>except Exception: abort(404)\<close>: whatever the body of the \<^verbatim>\<open>try\<close> raises, the
  \<^verbatim>\<open>NotFound\<close> of its own \<^verbatim>\<open>abort(404)\<close> included, is replaced by \<^verbatim>\<open>NotFound\<close>.
\<close>

definition except_abort_404 :: "exn + response \<Rightarrow> exn + response" where
  "except_abort_404 r = (case r of Inl e \<Rightarrow> Inl NotFound | Inr v \<Rightarrow> Inr v)"

text \<open>The body of the \<^verbatim>\<open>try\<close> of \<^verbatim>\<open>serve_root_files\<close>.\<close>

definition root_files_body :: "node \<Rightarrow> string \<Rightarrow> string \<Rightarrow> exn + response" where
  "root_files_body fs PROJECT_ROOT filename =
     (let safe_path = safe_join PROJECT_ROOT filename in
      case not_a_file fs safe_path of
        Inl e \<Rightarrow> Inl e
      | Inr True \<Rightarrow> Inl NotFound
      | Inr False \<Rightarrow> send_from_directory fs PROJECT_ROOT filename)"

text \<open>
  \<^verbatim>\<open>serve_root_files(filename='index.html')\<close>: the route \<^verbatim>\<open>/\<close> calls it without an
  argument (\<open>None\<close> here), the route \<^verbatim>\<open>/<path:filename>\<close> with the path.
\<close>

definition serve_root_files :: "node \<Rightarrow> string \<Rightarrow> string option \<Rightarrow> exn + response" where
  "serve_root_files fs PROJECT_ROOT arg =
     (let filename = (case arg of None \<Rightarrow> ''index.html'' | Some f \<Rightarrow> f)
      in except_abort_404 (root_files_body fs PROJECT_ROOT filename))"

text \<open>
  The two routes of \<^verbatim>\<open>serve_root_files\<close>, on the part of the URL path after the first
  slash: empty for \<^verbatim>\<open>/\<close>.
\<close>

definition route_root :: "node \<Rightarrow> string \<Rightarrow> string \<Rightarrow> exn + response" where
  "route_root fs PROJECT_ROOT requested =
     (if requested = [] then serve_root_files fs PROJECT_ROOT None
      else serve_root_files fs PROJECT_ROOT (Some requested))"

text \<open>The test of the search loop: \<^verbatim>\<open>f.lower() == decoded_filename.lower()\<close>.\<close>

definition matches_lower :: "string \<Rightarrow> string \<Rightarrow> bool" where
  "matches_lower decoded_filename f = (lower f = lower decoded_filename)"

text \<open>
  The body of the \<^verbatim>\<open>try\<close> of \<^verbatim>\<open>serve_scraped_images\<close>. The loop over
  \<^verbatim>\<open>os.listdir(image_dir)\<close> stops at the first entry whose lower-case form is that of the
  decoded name; \<^verbatim>\<open>os.path.basename(None)\<close> raises \<^verbatim>\<open>TypeError\<close>.
\<close>

definition scraped_images_body :: "node \<Rightarrow> string \<Rightarrow> string \<Rightarrow> exn + response" where
  "scraped_images_body fs image_dir decoded_filename =
     (let safe_path = safe_join image_dir decoded_filename in
      case not_a_file fs safe_path of
        Inl e \<Rightarrow> Inl e
      | Inr miss \<Rightarrow>
          (case (if miss
                 then (case os_listdir fs image_dir of
                         Inl e \<Rightarrow> Inl e
                       | Inr names \<Rightarrow>
                           (case find (matches_lower decoded_filename) names of
                              None \<Rightarrow> Inl NotFound
                            | Some f \<Rightarrow> Inr (safe_join image_dir f)))
                 else Inr safe_path) of
             Inl e \<Rightarrow> Inl e
           | Inr None \<Rightarrow> Inl TypeError
           | Inr (Some sp) \<Rightarrow> send_from_directory fs image_dir (basename sp)))"

definition serve_scraped_images :: "node \<Rightarrow> string \<Rightarrow> string \<Rightarrow> exn + response" where
  "serve_scraped_images fs PROJECT_ROOT filename =
     (let image_dir = path_join PROJECT_ROOT ''images_scraped'';
          decoded_filename = unquote filename
      in except_abort_404 (scraped_images_body fs image_dir decoded_filename))"

text \<open>
  What the framework answers for the outcome of a view function: the file, the 404 page
  for \<^verbatim>\<open>NotFound\<close>, and a 500 page for any other exception that leaves the handler.
\<close>

datatype http = HTTP_200 string string | HTTP_404 | HTTP_500

definition wsgi_response :: "exn + response \<Rightarrow> http" where
  "wsgi_response r =
     (case r of
        Inr (Response p b) \<Rightarrow> HTTP_200 p b
      | Inl NotFound \<Rightarrow> HTTP_404
      | Inl e \<Rightarrow> HTTP_500)"

section \<open>The notions the properties are stated with\<close>

text \<open>A proper name: not empty, not \<^verbatim>\<open>.\<close> and not \<^verbatim>\<open>..\<close>.\<close>

definition clean :: "string \<Rightarrow> bool" where
  "clean c = (c \<noteq> [] \<and> c \<noteq> ''.'' \<and> c \<noteq> ''..'')"

text \<open>
  Lexical traversal above the starting directory, read off the components from left to
  right: \<open>depth\<close> counts the directories entered so far, and a \<^verbatim>\<open>..\<close> met at depth
  zero climbs above.
\<close>

fun climbs_above :: "nat \<Rightarrow> string list \<Rightarrow> bool" where
  "climbs_above depth [] = False"
| "climbs_above depth (c # cs) =
     (if c = [] \<or> c = ''.'' then climbs_above depth cs
      else if c = ''..'' then (depth = 0 \<or> climbs_above (depth - 1) cs)
      else climbs_above (Suc depth) cs)"

text \<open>
  Lexical containment: the path is the root, a slash, and a remainder none of whose
  components is \<^verbatim>\<open>..\<close>.
\<close>

definition inside_root :: "string \<Rightarrow> string \<Rightarrow> bool" where
  "inside_root root p =
     (let base = path_join (if root = [] then ''.'' else root) []
      in startswith p base \<and> ''..'' \<notin> set (str_split sep (drop (length base) p)))"

text \<open>
  A well-formed tree: every entry of every directory has a proper name without a slash,
  and no directory lists a name twice.
\<close>

fun wf_node :: "node \<Rightarrow> bool" where
  "wf_node (File b) = True"
| "wf_node (Dir r es) =
     (distinct (map fst es)
      \<and> (\<forall>e \<in> set es. clean (fst e) \<and> sep \<notin> set (fst e) \<and> wf_node (snd e)))"

text \<open>A relative path in canonical form: one proper name or several, joined by slashes.\<close>

definition canonical_relative :: "string list \<Rightarrow> bool" where
  "canonical_relative comps = (comps \<noteq> [] \<and> (\<forall>c \<in> set comps. clean c \<and> sep \<notin> set c))"

text \<open>A string with a percent escape that \<^verbatim>\<open>unquote\<close> decodes.\<close>

fun has_escape :: "string \<Rightarrow> bool" where
  "has_escape (c # h # l # rest) =
     ((c = CHR ''%'' \<and> hex_digit h \<noteq> None \<and> hex_digit l \<noteq> None)
      \<or> has_escape (h # l # rest))"
| "has_escape cs = False"

section \<open>A sample tree\<close>

text \<open>
  The project lives in \<^verbatim>\<open>/srv\<close>. Its image directory holds, in listing order, a regular
  file \<^verbatim>\<open>Photos\<close>, a directory \<^verbatim>\<open>photos\<close>, the file \<^verbatim>\<open>Photo.JPG\<close>, a directory
  \<^verbatim>\<open>Albums\<close>, a directory \<^verbatim>\<open>sub\<close> with a file in it, and a file whose name contains a
  percent escape.
\<close>

definition sample_project :: node where
  "sample_project =
     Dir True
       [(''index.html'', File ''<html>''),
        (''css'', Dir True [(''a.css'', File ''body{}'')]),
        (''images_scraped'', Dir True
           [(''Photos'', File ''P''),
            (''photos'', Dir True []),
            (''Photo.JPG'', File ''jpg''),
            (''Albums'', Dir True []),
            (''sub'', Dir True [(''a.jpg'', File ''nested'')]),
            (''a%20b.jpg'', File ''pct'')])]"

definition sample_fs :: node where
  "sample_fs =
     Dir True [(''srv'', sample_project), (''etc'', Dir True [(''passwd'', File ''root'')])]"

text \<open>The same project directory on a machine with nothing else.\<close>

definition other_fs :: node where
  "other_fs = Dir False [(''srv'', sample_project)]"

text \<open>
  The same project with an image directory that may not be listed, and one without an
  image directory.
\<close>

definition unreadable_fs :: node where
  "unreadable_fs =
     Dir True
       [(''srv'', Dir True
          [(''index.html'', File ''<html>''),
           (''images_scraped'', Dir False [(''A.jpg'', File ''a'')])])]"

definition bare_fs :: node where
  "bare_fs = Dir True [(''srv'', Dir True [(''readme'', File ''hello'')])]"

text \<open>
  A project whose image directory has a file \<^verbatim>\<open>a.jpg\<close> and, in a subdirectory, another
  file of the same name.
\<close>

definition shadow_fs :: node where
  "shadow_fs =
     Dir True
       [(''srv'', Dir True
          [(''images_scraped'', Dir True
              [(''a.jpg'', File ''top''),
               (''sub'', Dir True [(''a.jpg'', File ''nested'')])])])]"

section \<open>Splitting and joining\<close>

lemma str_split_not_Nil [simp]: "str_split d s \<noteq> []"
  by (induction s) (auto split: list.splits)

lemma str_split_no_delim: "c \<in> set (str_split d s) \<Longrightarrow> d \<notin> set c"
proof (induction s arbitrary: c)
  case Nil
  then show ?case by simp
next
  case (Cons a s)
  show ?case
  proof (cases "a = d")
    case True
    with Cons show ?thesis by auto
  next
    case False
    obtain x xs where sp: "str_split d s = x # xs"
      by (cases "str_split d s") auto
    with Cons False show ?thesis by auto
  qed
qed

lemma str_split_append: "str_split d (a @ d # b) = str_split d a @ str_split d b"
proof (induction a)
  case Nil
  then show ?case by simp
next
  case (Cons c a)
  obtain x xs where sp: "str_split d a = x # xs"
    by (cases "str_split d a") auto
  with Cons show ?case by auto
qed

lemma str_split_single: "d \<notin> set s \<Longrightarrow> str_split d s = [s]"
  by (induction s) (auto split: list.splits)

lemma str_split_join:
  "xs \<noteq> [] \<Longrightarrow> \<forall>x \<in> set xs. d \<notin> set x \<Longrightarrow> str_split d (str_join [d] xs) = xs"
proof (induction xs)
  case Nil
  then show ?case by simp
next
  case (Cons x xs)
  show ?case
  proof (cases xs)
    case Nil
    with Cons.prems show ?thesis by (simp add: str_split_single)
  next
    case (Cons y ys)
    have "str_join [d] (x # xs) = x @ d # str_join [d] xs"
      using Cons by simp
    moreover have "str_split d (str_join [d] xs) = xs"
      using Cons.IH Cons.prems Cons by simp
    ultimately show ?thesis
      using Cons.prems by (simp add: str_split_append str_split_single)
  qed
qed

section \<open>Normalisation and the safe join\<close>

text \<open>
  On a relative path the loop of \<^verbatim>\<open>normpath\<close> keeps a block of leading \<^verbatim>\<open>..\<close>
  followed by proper names, and the block is empty exactly when the path does not climb
  above its starting directory.
\<close>

lemma normpath_loop_relative:
  "\<forall>c \<in> set cl. clean c \<Longrightarrow>
   \<exists>k' cl'. normpath_loop 0 cs (replicate k ''..'' @ cl) = replicate k' ''..'' @ cl'
     \<and> (\<forall>c \<in> set cl'. clean c \<and> (c \<in> set cl \<or> c \<in> set cs))
     \<and> (0 < k' \<longleftrightarrow> 0 < k \<or> climbs_above (length cl) cs)"
proof (induction cs arbitrary: k cl)
  case Nil
  then show ?case by auto
next
  case (Cons c cs)
  consider (skip) "c = [] \<or> c = ''.''" | (up) "c = ''..''" | (name) "clean c"
    by (auto simp: clean_def)
  then show ?case
  proof cases
    case skip
    from Cons.IH[OF Cons.prems, of k] obtain k' cl' where
      "normpath_loop 0 cs (replicate k ''..'' @ cl) = replicate k' ''..'' @ cl'"
      "\<forall>c \<in> set cl'. clean c \<and> (c \<in> set cl \<or> c \<in> set cs)"
      "0 < k' \<longleftrightarrow> 0 < k \<or> climbs_above (length cl) cs" by blast
    with skip show ?thesis by auto
  next
    case name
    have pr: "\<forall>c \<in> set (cl @ [c]). clean c" using Cons.prems name by simp
    from Cons.IH[OF pr, of k] obtain k' cl' where
      h: "normpath_loop 0 cs (replicate k ''..'' @ cl @ [c]) = replicate k' ''..'' @ cl'"
      "\<forall>x \<in> set cl'. clean x \<and> (x \<in> set (cl @ [c]) \<or> x \<in> set cs)"
      "0 < k' \<longleftrightarrow> 0 < k \<or> climbs_above (length (cl @ [c])) cs" by blast
    have "normpath_loop 0 (c # cs) (replicate k ''..'' @ cl)
          = normpath_loop 0 cs (replicate k ''..'' @ cl @ [c])"
      using name by (simp add: clean_def)
    with h name show ?thesis
      apply (intro exI[of _ k'] exI[of _ cl'])
      by (auto simp: clean_def)
  next
    case up
    show ?thesis
    proof (cases "cl = []")
      case True
      have st: "normpath_loop 0 (c # cs) (replicate k ''..'' @ cl)
          = normpath_loop 0 cs (replicate (Suc k) ''..'' @ [])"
        using up True by (cases k) (auto simp: replicate_append_same)
      have pr: "\<forall>c \<in> set ([]::string list). clean c" by simp
      from Cons.IH[OF pr, of "Suc k"] obtain k' cl' where
        h: "normpath_loop 0 cs (replicate (Suc k) ''..'' @ []) = replicate k' ''..'' @ cl'"
        "\<forall>x \<in> set cl'. clean x \<and> (x \<in> set [] \<or> x \<in> set cs)"
        "0 < k' \<longleftrightarrow> 0 < Suc k \<or> climbs_above (length ([]::string list)) cs" by blast
      from st h up True show ?thesis
        apply (intro exI[of _ k'] exI[of _ cl'])
        by auto
    next
      case False
      have lc: "last (replicate k ''..'' @ cl) \<noteq> ''..''"
        using False Cons.prems by (auto simp: clean_def)
      have st: "normpath_loop 0 (c # cs) (replicate k ''..'' @ cl)
          = normpath_loop 0 cs (replicate k ''..'' @ butlast cl)"
        using up False lc by (simp add: butlast_append)
      have pr: "\<forall>c \<in> set (butlast cl). clean c"
        using Cons.prems by (auto dest: in_set_butlastD)
      from Cons.IH[OF pr, of k] obtain k' cl' where
        h: "normpath_loop 0 cs (replicate k ''..'' @ butlast cl) = replicate k' ''..'' @ cl'"
        "\<forall>x \<in> set cl'. clean x \<and> (x \<in> set (butlast cl) \<or> x \<in> set cs)"
        "0 < k' \<longleftrightarrow> 0 < k \<or> climbs_above (length (butlast cl)) cs" by blast
      from st h up False show ?thesis
        apply (intro exI[of _ k'] exI[of _ cl'])
        by (auto dest: in_set_butlastD)
    qed
  qed
qed


lemma isabs_Cons [simp]: "isabs (c # s) = (c = sep)"
  by (simp add: isabs_def startswith_def)

lemma isabs_Nil [simp]: "\<not> isabs []"
  by (simp add: isabs_def startswith_def)

lemma isabs_replicate: "0 < n \<Longrightarrow> isabs (replicate n sep @ s) \<and> replicate n sep @ s \<noteq> []"
  by (cases n) auto

lemma normpath_absolute:
  assumes "isabs path"
  shows "isabs (normpath path)"
proof -
  define n :: nat where
    "n = (if startswith path [sep, sep] \<and> \<not> startswith path [sep, sep, sep] then 2 else 1)"
  have n: "0 < n" by (simp add: n_def)
  have "path \<noteq> []" "startswith path [sep]"
    using assms by (auto simp: isabs_def startswith_def)
  then have "normpath path =
      replicate n sep @ str_join [sep] (normpath_loop n (str_split sep path) [])"
    using isabs_replicate[OF n] by (simp add: normpath_def Let_def n_def)
  with isabs_replicate[OF n] show ?thesis by simp
qed

lemma str_join_dotdot_head:
  "str_join [sep] (''..'' # rest) = ''..'' \<or> startswith (str_join [sep] (''..'' # rest)) ''../''"
  by (cases rest) (auto simp: startswith_def sep_def)

lemma normpath_relative:
  assumes "path \<noteq> []" "\<not> isabs path"
  shows "\<exists>k cl. (\<forall>c \<in> set cl. clean c \<and> sep \<notin> set c)
            \<and> (0 < k \<longleftrightarrow> climbs_above 0 (str_split sep path))
            \<and> normpath path = (if k = 0 \<and> cl = [] then ''.''
                                else str_join [sep] (replicate k ''..'' @ cl))"
proof -
  have "\<forall>c \<in> set ([]::string list). clean c" by simp
  from normpath_loop_relative[OF this, of "str_split sep path" 0] obtain k cl where
    h: "normpath_loop 0 (str_split sep path) [] = replicate k ''..'' @ cl"
    "\<forall>c \<in> set cl. clean c \<and> c \<in> set (str_split sep path)"
    "0 < k \<longleftrightarrow> climbs_above 0 (str_split sep path)" by auto
  have ns: "\<forall>c \<in> set cl. clean c \<and> sep \<notin> set c"
    using h(2) by (auto dest: str_split_no_delim)
  have ne: "str_join [sep] (replicate k ''..'' @ cl) = [] \<longleftrightarrow> k = 0 \<and> cl = []"
  proof (cases k)
    case 0
    show ?thesis
    proof (cases cl)
      case Nil
      with 0 show ?thesis by simp
    next
      case (Cons a as)
      then have "a \<noteq> []" using ns by (auto simp: clean_def)
      with 0 Cons show ?thesis by (cases as) auto
    qed
  next
    case (Suc j)
    then show ?thesis by (cases "replicate j ''..'' @ cl") auto
  qed
  have "normpath path = (if k = 0 \<and> cl = [] then ''.''
                                else str_join [sep] (replicate k ''..'' @ cl))"
    using assms h(1) ne by (cases path) (auto simp: normpath_def Let_def startswith_def)
  with ns h(3) show ?thesis by blast
qed

lemma safe_join_Some:
  assumes "safe_join d f = Some p"
  shows "\<exists>n. p = path_join (if d = [] then ''.'' else d) n \<and> \<not> isabs n
             \<and> ''..'' \<notin> set (str_split sep n)"
proof (cases "f = []")
  case True
  with assms show ?thesis by (auto simp: safe_join_def Let_def split: if_splits)
next
  case False
  with assms have acc: "\<not> isabs (normpath f)" "normpath f \<noteq> ''..''"
    "\<not> startswith (normpath f) ''../''"
    and p: "p = path_join (if d = [] then ''.'' else d) (normpath f)"
    by (auto simp: safe_join_def Let_def split: if_splits)
  from acc(1) have rel: "\<not> isabs f" using normpath_absolute by blast
  from normpath_relative[OF False rel] obtain k cl where
    h: "\<forall>c \<in> set cl. clean c \<and> sep \<notin> set c"
    "normpath f = (if k = 0 \<and> cl = [] then ''.''
                                else str_join [sep] (replicate k ''..'' @ cl))" by blast
  have k0: "k = 0"
  proof (rule ccontr)
    assume "k \<noteq> 0"
    then obtain j where "k = Suc j" by (cases k) auto
    with h(2) have "normpath f = str_join [sep] (''..'' # (replicate j ''..'' @ cl))" by simp
    with str_join_dotdot_head[of "replicate j ''..'' @ cl"] acc show False by auto
  qed
  have "''..'' \<notin> set (str_split sep (normpath f))"
  proof (cases "cl = []")
    case True
    with k0 h(2) show ?thesis by (simp add: sep_def)
  next
    case False
    with k0 h have "str_split sep (normpath f) = cl"
      by (simp add: str_split_join)
    with h(1) show ?thesis by (auto simp: clean_def)
  qed
  with p acc(1) show ?thesis by blast
qed

lemma climbs_above_not_empty: "climbs_above 0 (str_split sep f) \<Longrightarrow> f \<noteq> []"
  by auto

lemma safe_join_rejects:
  assumes "climbs_above 0 (str_split sep f) \<or> isabs f"
  shows "safe_join d f = None"
proof (cases "isabs f")
  case True
  then have "f \<noteq> []" by auto
  with True normpath_absolute[OF True] show ?thesis by (simp add: safe_join_def Let_def)
next
  case False
  with assms have c: "climbs_above 0 (str_split sep f)" by simp
  then have ne: "f \<noteq> []" by auto
  from normpath_relative[OF ne False] c obtain k cl where
    h: "0 < k" "normpath f = (if k = 0 \<and> cl = [] then ''.''
                                else str_join [sep] (replicate k ''..'' @ cl))" by blast
  then obtain j where "k = Suc j" by (cases k) auto
  with h(2) have "normpath f = str_join [sep] (''..'' # (replicate j ''..'' @ cl))" by simp
  with str_join_dotdot_head[of "replicate j ''..'' @ cl"] ne show ?thesis
    by (auto simp: safe_join_def Let_def)
qed

section \<open>What a response says about the tree\<close>

lemma path_join_relative: "\<not> isabs n \<Longrightarrow> path_join d n = path_join d [] @ n"
  by (cases n) (auto simp: path_join_def startswith_def endswith_def)

lemma inside_root_join:
  "\<not> isabs n \<Longrightarrow> ''..'' \<notin> set (str_split sep n)
   \<Longrightarrow> inside_root d (path_join (if d = [] then ''.'' else d) n)"
  using path_join_relative[of n "if d = [] then ''.'' else d"]
  by (simp add: inside_root_def Let_def startswith_def)

lemma safe_join_inside: "safe_join d f = Some p \<Longrightarrow> inside_root d p"
  using safe_join_Some[of d f p] inside_root_join[of _ d] by auto

lemma send_from_directory_Response:
  "send_from_directory fs d f = Inr (Response p b)
   \<Longrightarrow> os_stat fs p = Inr (File b) \<and> inside_root d p"
  by (auto simp: send_from_directory_def safe_join_inside
           split: option.splits sum.splits node.splits)

lemma except_abort_404_Inr: "except_abort_404 r = Inr v \<longleftrightarrow> r = Inr v"
  by (cases r) (auto simp: except_abort_404_def)

lemma except_abort_404_cases:
  "except_abort_404 r = Inl NotFound \<or> (\<exists>p b. except_abort_404 r = Inr (Response p b))"
proof (cases r)
  case (Inl e)
  then show ?thesis by (simp add: except_abort_404_def)
next
  case (Inr v)
  then show ?thesis by (cases v) (simp add: except_abort_404_def)
qed

lemma not_a_file_None: "not_a_file fs None = Inl TypeError"
  by (simp add: not_a_file_def os_path_exists_def)

lemma root_files_body_Response:
  "root_files_body fs root f = Inr (Response p b)
   \<Longrightarrow> os_stat fs p = Inr (File b) \<and> inside_root root p"
  by (auto simp: root_files_body_def Let_def dest: send_from_directory_Response
           split: sum.splits bool.splits if_splits)

lemma scraped_images_body_Response:
  "scraped_images_body fs d f = Inr (Response p b)
   \<Longrightarrow> os_stat fs p = Inr (File b) \<and> inside_root d p"
  by (auto simp: scraped_images_body_def Let_def dest: send_from_directory_Response
           split: sum.splits option.splits if_splits)

section \<open>Canonical relative paths\<close>

lemma normpath_loop_clean:
  "\<forall>c \<in> set cs. clean c \<Longrightarrow> normpath_loop 0 cs acc = acc @ cs"
  by (induction cs arbitrary: acc) (auto simp: clean_def)

lemma str_join_hd: "cs \<noteq> [] \<Longrightarrow> hd cs \<noteq> [] \<Longrightarrow> hd (str_join [sep] cs) = hd (hd cs)"
proof (cases cs)
  case Nil
  then show "cs \<noteq> [] \<Longrightarrow> ?thesis" by simp
next
  case (Cons c rest)
  then show "hd cs \<noteq> [] \<Longrightarrow> ?thesis" by (cases rest) auto
qed

lemma canonical_relative_facts:
  assumes "canonical_relative comps"
  shows "str_join [sep] comps \<noteq> []" "\<not> isabs (str_join [sep] comps)"
    "str_split sep (str_join [sep] comps) = comps"
proof -
  from assms obtain c cs where cc: "comps = c # cs" "clean c" "sep \<notin> set c"
    by (cases comps) (auto simp: canonical_relative_def)
  then obtain x xs where c: "c = x # xs" "x \<noteq> sep" by (cases c) (auto simp: clean_def)
  show ne: "str_join [sep] comps \<noteq> []"
    using cc c by (cases cs) auto
  have "hd (str_join [sep] comps) = x"
    using str_join_hd[of comps] cc c by simp
  with ne c show "\<not> isabs (str_join [sep] comps)"
    by (cases "str_join [sep] comps") auto
  show "str_split sep (str_join [sep] comps) = comps"
    using assms by (simp add: canonical_relative_def str_split_join)
qed

lemma normpath_canonical:
  assumes "canonical_relative comps"
  shows "normpath (str_join [sep] comps) = str_join [sep] comps"
proof -
  note f = canonical_relative_facts[OF assms]
  have "\<forall>c \<in> set comps. clean c" using assms by (simp add: canonical_relative_def)
  then have "normpath_loop 0 comps [] = comps" by (simp add: normpath_loop_clean)
  with f show ?thesis
    by (simp add: normpath_def Let_def isabs_def[symmetric])
qed

lemma str_join_not_dotdot:
  assumes "canonical_relative comps"
  shows "str_join [sep] comps \<noteq> ''..''" "\<not> startswith (str_join [sep] comps) ''../''"
proof -
  have s: "str_split sep (str_join [sep] comps) = comps"
    by (rule canonical_relative_facts[OF assms])
  have nd: "''..'' \<notin> set comps" using assms by (auto simp: canonical_relative_def clean_def)
  show "str_join [sep] comps \<noteq> ''..''"
  proof
    assume "str_join [sep] comps = ''..''"
    with s have "comps = [''..'']" by (simp add: sep_def)
    with nd show False by simp
  qed
  show "\<not> startswith (str_join [sep] comps) ''../''"
  proof
    assume "startswith (str_join [sep] comps) ''../''"
    then obtain rest where "str_join [sep] comps = ''..'' @ sep # rest"
      by (metis append_take_drop_id startswith_def sep_def append_Cons append_Nil length_Cons list.size(3) take_Suc_Cons take0)
    with s have "comps = str_split sep ''..'' @ str_split sep rest"
      by (simp only: str_split_append)
    with nd show False by (simp add: sep_def)
  qed
qed

lemma safe_join_canonical:
  assumes "canonical_relative comps" "d \<noteq> []"
  shows "safe_join d (str_join [sep] comps) = Some (path_join d (str_join [sep] comps))"
  using canonical_relative_facts[OF assms(1)] normpath_canonical[OF assms(1)]
    str_join_not_dotdot[OF assms(1)] assms(2)
  by (simp add: safe_join_def Let_def)

section \<open>The root handler on a safely joined path\<close>

lemma root_files_body_file:
  assumes "safe_join root f = Some p" "os_stat fs p = Inr (File b)"
  shows "root_files_body fs root f = Inr (Response p b)"
  using assms
  by (simp add: root_files_body_def not_a_file_def os_path_exists_def os_path_isfile_def
      send_from_directory_def)

lemma root_files_body_not_file:
  assumes "safe_join root f = Some p" "\<forall>b. os_stat fs p \<noteq> Inr (File b)"
  shows "root_files_body fs root f = Inl NotFound"
  using assms
  by (auto simp: root_files_body_def not_a_file_def os_path_exists_def os_path_isfile_def
      send_from_directory_def split: sum.splits node.splits bool.splits)

section \<open>Well-formed trees and the case-insensitive search\<close>

lemma walk_wf:
  "list_all wf_node st \<Longrightarrow> walk st cs = Some st' \<Longrightarrow> list_all wf_node st'"
proof (induction st cs arbitrary: st' rule: walk.induct)
  case (1 st)
  then show ?case by simp
next
  case (2 c cs)
  then show ?case by simp
next
  case (3 b up c cs)
  then show ?case by simp
next
  case (4 r es up c cs)
  note wf = "4.prems"(1)
  show ?case
  proof (cases "c = [] \<or> c = ''.''")
    case True
    with "4.prems"(2) have "walk (Dir r es # up) cs = Some st'" by simp
    from "4.IH"(1)[OF True wf this] show ?thesis .
  next
    case nd: False
    show ?thesis
    proof (cases "c = ''..''")
      case True
      let ?st = "if up = [] then [Dir r es] else up"
      from "4.prems"(2) nd True have w: "walk ?st cs = Some st'" by simp
      from wf have "list_all wf_node ?st" by simp
      from "4.IH"(2)[OF nd True this w] show ?thesis .
    next
      case False
      with nd "4.prems"(2) obtain n where n: "map_of es c = Some n"
        "walk (n # Dir r es # up) cs = Some st'"
        by (cases "map_of es c") simp_all
      from n(1) have "(c, n) \<in> set es" by (rule map_of_SomeD)
      with wf have "wf_node n" by auto
      with wf have "list_all wf_node (n # Dir r es # up)" by simp
      from "4.IH"(3)[OF nd False n(1) this n(2)] show ?thesis .
    qed
  qed
qed

lemma os_stat_wf:
  assumes "wf_node fs" "os_stat fs p = Inr n"
  shows "wf_node n"
proof -
  from assms(2) obtain up where w: "walk [fs] (str_split sep p) = Some (n # up)"
    by (auto simp: os_stat_def split: if_splits option.splits list.splits)
  from assms(1) have "list_all wf_node [fs]" by simp
  from walk_wf[OF this w] show ?thesis by simp
qed

lemma os_listdir_wf:
  assumes "wf_node fs" "os_listdir fs d = Inr names"
  shows "\<forall>f \<in> set names. clean f \<and> sep \<notin> set f"
proof -
  from assms(2) obtain r es where s: "os_stat fs d = Inr (Dir r es)" "names = map fst es"
    by (auto simp: os_listdir_def split: sum.splits node.splits if_splits)
  from os_stat_wf[OF assms(1) s(1)] s(2) show ?thesis by auto
qed

lemma endswith_sep: "endswith d [sep] \<longleftrightarrow> (\<exists>d'. d = d' @ [sep])"
  by (cases d rule: rev_cases) (auto simp: endswith_def)

lemma basename_append_sep:
  assumes "sep \<notin> set f"
  shows "basename (d @ sep # f) = f"
proof -
  have "takeWhile (\<lambda>c. c \<noteq> sep) (rev f @ sep # rev d)
        = rev f @ takeWhile (\<lambda>c. c \<noteq> sep) (sep # rev d)"
    by (rule takeWhile_append2) (use assms in auto)
  then show ?thesis by (simp add: basename_def)
qed

lemma basename_no_sep:
  assumes "sep \<notin> set f"
  shows "basename f = f"
proof -
  have "takeWhile (\<lambda>c. c \<noteq> sep) (rev f) = rev f"
    unfolding takeWhile_eq_all_conv using assms by auto
  then have "rev (takeWhile (\<lambda>c. c \<noteq> sep) (rev f)) = rev (rev f)"
    by (rule arg_cong)
  then show ?thesis unfolding basename_def by (simp only: rev_rev_ident)
qed

lemma basename_path_join: "sep \<notin> set f \<Longrightarrow> basename (path_join d f) = f"
proof -
  assume f: "sep \<notin> set f"
  have na: "\<not> startswith f [sep]" using f by (cases f) (auto simp: startswith_def)
  show ?thesis
  proof (cases "d = []")
    case True
    with na f show ?thesis by (simp add: path_join_def basename_no_sep)
  next
    case False
    show ?thesis
    proof (cases "endswith d [sep]")
      case True
      then obtain d' where "d = d' @ [sep]" by (auto simp: endswith_sep)
      with na True f basename_append_sep[OF f, of d'] show ?thesis
        by (simp add: path_join_def)
    next
      case False
      with na basename_append_sep[OF f, of d] \<open>d \<noteq> []\<close> show ?thesis
        by (simp add: path_join_def)
    qed
  qed
qed

lemma canonical_single: "clean f \<Longrightarrow> sep \<notin> set f \<Longrightarrow> canonical_relative [f]"
  by (simp add: canonical_relative_def)

lemma safe_join_name:
  "clean f \<Longrightarrow> sep \<notin> set f \<Longrightarrow> d \<noteq> [] \<Longrightarrow> safe_join d f = Some (path_join d f)"
  using safe_join_canonical[OF canonical_single, of f d] by simp

lemma send_from_directory_name:
  assumes "clean f" "sep \<notin> set f" "d \<noteq> []"
  shows "send_from_directory fs d f =
     (case os_stat fs (path_join d f) of
        Inr (File b) \<Rightarrow> Inr (Response (path_join d f) b)
      | _ \<Rightarrow> Inl NotFound)"
  using safe_join_name[OF assms] by (simp add: send_from_directory_def)

lemma fallback_result:
  assumes names: "\<forall>f \<in> set names. clean f \<and> sep \<notin> set f"
    and d: "d \<noteq> []"
    and miss: "not_a_file fs (safe_join d decoded) = Inr True"
    and ls: "os_listdir fs d = Inr names"
  shows "scraped_images_body fs d decoded =
     (case find (matches_lower decoded) names of
        None \<Rightarrow> Inl NotFound
      | Some f \<Rightarrow>
          (case os_stat fs (path_join d f) of
             Inr (File b) \<Rightarrow> Inr (Response (path_join d f) b)
           | _ \<Rightarrow> Inl NotFound))"
proof (cases "find (matches_lower decoded) names")
  case None
  with miss ls show ?thesis by (simp add: scraped_images_body_def)
next
  case (Some f)
  then have "f \<in> set names" by (auto simp: find_Some_iff)
  with names have f: "clean f" "sep \<notin> set f" by auto
  from Some miss ls safe_join_name[OF f d] basename_path_join[OF f(2), of d]
    send_from_directory_name[OF f d, of fs]
  show ?thesis by (simp add: scraped_images_body_def)
qed

lemma of_char_lower_char:
  "(of_char (lower_char c) :: nat) =
     (if 65 \<le> (of_char c :: nat) \<and> (of_char c :: nat) \<le> 90 then of_char c + 32 else of_char c)"
  by (simp add: lower_char_def)

lemma lower_char_sep: "lower_char c = sep \<longleftrightarrow> c = sep"
proof
  assume "lower_char c = sep"
  then have "(of_char (lower_char c) :: nat) = of_char sep" by simp
  then have "(of_char c :: nat) = of_char sep"
    by (simp add: of_char_lower_char sep_def split: if_splits)
  then show "c = sep" by simp
next
  assume "c = sep"
  then show "lower_char c = sep" by (simp add: lower_char_def sep_def)
qed

lemma lower_char_sep': "sep = lower_char c \<longleftrightarrow> c = sep"
  using lower_char_sep[of c] by auto

lemma lower_sep: "sep \<in> set (lower s) \<longleftrightarrow> sep \<in> set s"
  by (induction s) (auto simp: lower_def lower_char_sep lower_char_sep')

lemma length_lower [simp]: "length (lower s) = length s"
  by (simp add: lower_def)

lemma image_dir_not_empty: "path_join root ''images_scraped'' \<noteq> []"
  by (simp add: path_join_def startswith_def sep_def)

lemma find_matches_nested:
  assumes "\<forall>f \<in> set names. clean f \<and> sep \<notin> set f" "sep \<in> set decoded"
  shows "find (matches_lower decoded) names = None"
proof -
  have "\<not> matches_lower decoded f" if "f \<in> set names" for f
  proof
    assume "matches_lower decoded f"
    then have "lower f = lower decoded" by (simp add: matches_lower_def)
    with assms(2) have "sep \<in> set f" using lower_sep[of f] lower_sep[of decoded] by simp
    with assms(1) that show False by blast
  qed
  then show ?thesis by (simp add: find_None_iff)
qed

lemma serve_scraped_images_fallback:
  assumes "wf_node fs"
    and "not_a_file fs (safe_join (path_join root ''images_scraped'') (unquote filename)) = Inr True"
  shows "serve_scraped_images fs root filename =
     (case os_listdir fs (path_join root ''images_scraped'') of
        Inl e \<Rightarrow> Inl NotFound
      | Inr names \<Rightarrow>
          (case find (matches_lower (unquote filename)) names of
             None \<Rightarrow> Inl NotFound
           | Some entry \<Rightarrow>
               (case os_stat fs (path_join (path_join root ''images_scraped'') entry) of
                  Inr (File b) \<Rightarrow>
                    Inr (Response (path_join (path_join root ''images_scraped'') entry) b)
                | _ \<Rightarrow> Inl NotFound)))"
proof (cases "os_listdir fs (path_join root ''images_scraped'')")
  case (Inl e)
  with assms(2) show ?thesis
    by (simp add: serve_scraped_images_def scraped_images_body_def except_abort_404_def)
next
  case (Inr names)
  from os_listdir_wf[OF assms(1) Inr]
  have "scraped_images_body fs (path_join root ''images_scraped'') (unquote filename) =
     (case find (matches_lower (unquote filename)) names of
        None \<Rightarrow> Inl NotFound
      | Some f \<Rightarrow>
          (case os_stat fs (path_join (path_join root ''images_scraped'') f) of
             Inr (File b) \<Rightarrow> Inr (Response (path_join (path_join root ''images_scraped'') f) b)
           | _ \<Rightarrow> Inl NotFound))"
    by (rule fallback_result[OF _ image_dir_not_empty assms(2) Inr])
  with Inr show ?thesis
    by (simp add: serve_scraped_images_def except_abort_404_def
        split: option.splits sum.splits node.splits)
qed

section \<open>The handlers\<close>

lemma serve_root_files_Response:
  "serve_root_files fs root arg = Inr (Response p b)
   \<Longrightarrow> os_stat fs p = Inr (File b) \<and> inside_root root p"
  unfolding serve_root_files_def Let_def except_abort_404_Inr
  by (rule root_files_body_Response)

lemma serve_scraped_images_Response:
  "serve_scraped_images fs root filename = Inr (Response p b)
   \<Longrightarrow> os_stat fs p = Inr (File b) \<and> inside_root (path_join root ''images_scraped'') p"
  unfolding serve_scraped_images_def Let_def except_abort_404_Inr
  by (rule scraped_images_body_Response)

lemma root_files_body_rejects:
  "safe_join root requested = None \<Longrightarrow> root_files_body fs root requested = Inl TypeError"
  by (simp add: root_files_body_def not_a_file_None)

lemma scraped_images_body_rejects:
  "safe_join d requested = None \<Longrightarrow> scraped_images_body fs d requested = Inl TypeError"
  by (simp add: scraped_images_body_def not_a_file_None)

section \<open>Containment\<close>

text \<open>
  C1. Neither handler ever sends a file whose path lies outside its root directory: the
  path sent is the root followed by a remainder without any \<^verbatim>\<open>..\<close> component. A
  requested path that climbs above the root (a \<^verbatim>\<open>..\<close> met when no directory below the
  root is left to leave), or that is absolute, is answered with \<^verbatim>\<open>NotFound\<close>, by the
  handler of the root files and, on the decoded name, by the handler of the images.
\<close>

theorem resolve_never_leaves_root:
  "(serve_root_files fs root arg = Inr (Response p b) \<longrightarrow> inside_root root p)
   \<and> (serve_scraped_images fs root filename = Inr (Response p' b')
        \<longrightarrow> inside_root (path_join root ''images_scraped'') p')
   \<and> (climbs_above 0 (str_split sep requested) \<or> isabs requested
        \<longrightarrow> serve_root_files fs root (Some requested) = Inl NotFound)
   \<and> (climbs_above 0 (str_split sep (unquote requested')) \<or> isabs (unquote requested')
        \<longrightarrow> serve_scraped_images fs root requested' = Inl NotFound)"
proof (intro conjI impI)
  assume "serve_root_files fs root arg = Inr (Response p b)"
  then show "inside_root root p"
    using serve_root_files_Response by blast
next
  assume "serve_scraped_images fs root filename = Inr (Response p' b')"
  then show "inside_root (path_join root ''images_scraped'') p'"
    using serve_scraped_images_Response by blast
next
  assume "climbs_above 0 (str_split sep requested) \<or> isabs requested"
  then have "safe_join root requested = None"
    by (rule safe_join_rejects)
  then show "serve_root_files fs root (Some requested) = Inl NotFound"
    by (simp add: serve_root_files_def root_files_body_rejects except_abort_404_def)
next
  assume "climbs_above 0 (str_split sep (unquote requested')) \<or> isabs (unquote requested')"
  then have "safe_join (path_join root ''images_scraped'') (unquote requested') = None"
    by (rule safe_join_rejects)
  then show "serve_scraped_images fs root requested' = Inl NotFound"
    by (simp add: serve_scraped_images_def scraped_images_body_rejects except_abort_404_def)
qed

theorem resolve_never_leaves_root_witness:
  "serve_root_files sample_fs ''/srv'' (Some ''css/./a.css'')
     = Inr (Response ''/srv/css/a.css'' ''body{}'')
   \<and> inside_root ''/srv'' ''/srv/css/a.css''
   \<and> serve_scraped_images sample_fs ''/srv'' ''photo.jpg''
     = Inr (Response ''/srv/images_scraped/Photo.JPG'' ''jpg'')
   \<and> inside_root (path_join ''/srv'' ''images_scraped'') ''/srv/images_scraped/Photo.JPG''
   \<and> climbs_above 0 (str_split sep ''css/../../etc/passwd'')
   \<and> serve_root_files sample_fs ''/srv'' (Some ''css/../../etc/passwd'') = Inl NotFound
   \<and> climbs_above 0 (str_split sep (unquote ''..%2Findex.html''))
   \<and> serve_scraped_images sample_fs ''/srv'' ''..%2Findex.html'' = Inl NotFound"
proof -
  have h1: "serve_root_files sample_fs ''/srv'' (Some ''css/./a.css'')
     = Inr (Response ''/srv/css/a.css'' ''body{}'')"
    by code_simp
  have h2: "serve_scraped_images sample_fs ''/srv'' ''photo.jpg''
     = Inr (Response ''/srv/images_scraped/Photo.JPG'' ''jpg'')"
    by code_simp
  have h3: "climbs_above 0 (str_split sep ''css/../../etc/passwd'')"
    by code_simp
  have h4: "climbs_above 0 (str_split sep (unquote ''..%2Findex.html''))"
    by code_simp
  note t = resolve_never_leaves_root[of sample_fs "''/srv''" "Some ''css/./a.css''"
      "''/srv/css/a.css''" "''body{}''" "''photo.jpg''" "''/srv/images_scraped/Photo.JPG''"
      "''jpg''" "''css/../../etc/passwd''" "''..%2Findex.html''"]
  from t h1 have c1: "inside_root ''/srv'' ''/srv/css/a.css''" by blast
  from t h2 have c2: "inside_root (path_join ''/srv'' ''images_scraped'')
      ''/srv/images_scraped/Photo.JPG''" by blast
  from t h3 have c3: "serve_root_files sample_fs ''/srv'' (Some ''css/../../etc/passwd'')
      = Inl NotFound" by blast
  from t h4 have c4: "serve_scraped_images sample_fs ''/srv'' ''..%2Findex.html''
      = Inl NotFound" by blast
  from h1 h2 h3 h4 c1 c2 c3 c4 show ?thesis by blast
qed

section \<open>What is sent is a regular file\<close>

lemma os_path_isfile_stat: "os_stat fs p = Inr (File b) \<Longrightarrow> os_path_isfile fs (Some p) = Inr True"
  by (simp add: os_path_isfile_def)

text \<open>
  C2. Whenever a handler sends a file, the path it sends names an existing regular file
  of the tree (\<^verbatim>\<open>os.path.isfile\<close> holds of it, and the body is that file's bytes) and
  lies inside the handler's root directory. This covers the files the image handler
  finds through its case-insensitive search.
\<close>

theorem resolved_path_is_regular_file_in_root:
  "(serve_root_files fs root arg = Inr (Response p b)
      \<longrightarrow> os_path_isfile fs (Some p) = Inr True \<and> os_stat fs p = Inr (File b)
          \<and> inside_root root p)
   \<and> (serve_scraped_images fs root filename = Inr (Response p' b')
      \<longrightarrow> os_path_isfile fs (Some p') = Inr True \<and> os_stat fs p' = Inr (File b')
          \<and> inside_root (path_join root ''images_scraped'') p')"
  using serve_root_files_Response[of fs root arg p b]
    serve_scraped_images_Response[of fs root filename p' b']
    os_path_isfile_stat[of fs p b] os_path_isfile_stat[of fs p' b']
  by blast

theorem resolved_path_is_regular_file_in_root_witness:
  "serve_root_files sample_fs ''/srv'' None = Inr (Response ''/srv/index.html'' ''<html>'')
   \<and> os_path_isfile sample_fs (Some ''/srv/index.html'') = Inr True
   \<and> os_stat sample_fs ''/srv/index.html'' = Inr (File ''<html>'')
   \<and> inside_root ''/srv'' ''/srv/index.html''
   \<and> serve_scraped_images sample_fs ''/srv'' ''PHOTO.jpg''
       = Inr (Response ''/srv/images_scraped/Photo.JPG'' ''jpg'')
   \<and> os_path_isfile sample_fs (Some ''/srv/images_scraped/Photo.JPG'') = Inr True
   \<and> os_stat sample_fs ''/srv/images_scraped/Photo.JPG'' = Inr (File ''jpg'')
   \<and> inside_root (path_join ''/srv'' ''images_scraped'') ''/srv/images_scraped/Photo.JPG''"
proof -
  have h1: "serve_root_files sample_fs ''/srv'' None
      = Inr (Response ''/srv/index.html'' ''<html>'')"
    by code_simp
  have h2: "serve_scraped_images sample_fs ''/srv'' ''PHOTO.jpg''
       = Inr (Response ''/srv/images_scraped/Photo.JPG'' ''jpg'')"
    by code_simp
  note t = resolved_path_is_regular_file_in_root[of sample_fs "''/srv''" None
      "''/srv/index.html''" "''<html>''" "''PHOTO.jpg''" "''/srv/images_scraped/Photo.JPG''"
      "''jpg''"]
  from t h1 h2 show ?thesis by blast
qed

section \<open>The case-insensitive fallback\<close>

lemma find_filter_single: "filter P xs = [e] \<Longrightarrow> find P xs = Some e"
proof (induction xs)
  case Nil
  then show ?case by simp
next
  case (Cons x xs)
  then show ?case by (cases "P x") auto
qed

text \<open>
  C3, as the handler has it. Let the direct lookup fail to find a regular file, and let
  exactly one name in the listing of the image directory have the lower-case form of the
  decoded name. If that entry is a regular file, the handler sends it, under the image
  directory; if it is not (a directory, say), the handler answers \<^verbatim>\<open>NotFound\<close>. With the
  file \<^verbatim>\<open>Photo.JPG\<close> in the directory, the request \<^verbatim>\<open>photo.jpg\<close> is answered with
  \<^verbatim>\<open>Photo.JPG\<close>.
\<close>

theorem fallback_serves_single_match_if_regular_file:
  assumes "wf_node fs"
    and "not_a_file fs (safe_join (path_join root ''images_scraped'') (unquote filename)) = Inr True"
    and "os_listdir fs (path_join root ''images_scraped'') = Inr names"
    and "filter (matches_lower (unquote filename)) names = [entry]"
  shows "(os_stat fs (path_join (path_join root ''images_scraped'') entry) = Inr (File b)
            \<longrightarrow> serve_scraped_images fs root filename
                = Inr (Response (path_join (path_join root ''images_scraped'') entry) b))
       \<and> ((\<forall>b'. os_stat fs (path_join (path_join root ''images_scraped'') entry) \<noteq> Inr (File b'))
            \<longrightarrow> serve_scraped_images fs root filename = Inl NotFound)"
  using serve_scraped_images_fallback[OF assms(1,2)] assms(3) find_filter_single[OF assms(4)]
  by (auto split: sum.splits node.splits)

theorem fallback_serves_single_match_if_regular_file_witness:
  "wf_node sample_fs
   \<and> not_a_file sample_fs (safe_join (path_join ''/srv'' ''images_scraped'') (unquote ''photo.jpg''))
       = Inr True
   \<and> os_listdir sample_fs (path_join ''/srv'' ''images_scraped'')
       = Inr [''Photos'', ''photos'', ''Photo.JPG'', ''Albums'', ''sub'', ''a%20b.jpg'']
   \<and> filter (matches_lower (unquote ''photo.jpg''))
        [''Photos'', ''photos'', ''Photo.JPG'', ''Albums'', ''sub'', ''a%20b.jpg''] = [''Photo.JPG'']
   \<and> os_stat sample_fs (path_join (path_join ''/srv'' ''images_scraped'') ''Photo.JPG'')
       = Inr (File ''jpg'')
   \<and> serve_scraped_images sample_fs ''/srv'' ''photo.jpg''
       = Inr (Response (path_join (path_join ''/srv'' ''images_scraped'') ''Photo.JPG'') ''jpg'')
   \<and> not_a_file sample_fs (safe_join (path_join ''/srv'' ''images_scraped'') (unquote ''albums''))
       = Inr True
   \<and> filter (matches_lower (unquote ''albums''))
        [''Photos'', ''photos'', ''Photo.JPG'', ''Albums'', ''sub'', ''a%20b.jpg''] = [''Albums'']
   \<and> (\<forall>b'. os_stat sample_fs (path_join (path_join ''/srv'' ''images_scraped'') ''Albums'')
          \<noteq> Inr (File b'))
   \<and> serve_scraped_images sample_fs ''/srv'' ''albums'' = Inl NotFound"
proof -
  have wf: "wf_node sample_fs" by code_simp
  have ls: "os_listdir sample_fs (path_join ''/srv'' ''images_scraped'')
       = Inr [''Photos'', ''photos'', ''Photo.JPG'', ''Albums'', ''sub'', ''a%20b.jpg'']"
    by code_simp
  have m1: "not_a_file sample_fs (safe_join (path_join ''/srv'' ''images_scraped'')
      (unquote ''photo.jpg'')) = Inr True"
    by code_simp
  have f1: "filter (matches_lower (unquote ''photo.jpg''))
        [''Photos'', ''photos'', ''Photo.JPG'', ''Albums'', ''sub'', ''a%20b.jpg''] = [''Photo.JPG'']"
    by code_simp
  have s1: "os_stat sample_fs (path_join (path_join ''/srv'' ''images_scraped'') ''Photo.JPG'')
       = Inr (File ''jpg'')"
    by code_simp
  have m2: "not_a_file sample_fs (safe_join (path_join ''/srv'' ''images_scraped'')
      (unquote ''albums'')) = Inr True"
    by code_simp
  have f2: "filter (matches_lower (unquote ''albums''))
        [''Photos'', ''photos'', ''Photo.JPG'', ''Albums'', ''sub'', ''a%20b.jpg''] = [''Albums'']"
    by code_simp
  have "os_stat sample_fs (path_join (path_join ''/srv'' ''images_scraped'') ''Albums'')
       = Inr (Dir True [])"
    by code_simp
  then have s2: "\<forall>b'. os_stat sample_fs (path_join (path_join ''/srv'' ''images_scraped'')
      ''Albums'') \<noteq> Inr (File b')"
    by simp
  from fallback_serves_single_match_if_regular_file[OF wf m1 ls f1, of "''jpg''"] s1
  have c1: "serve_scraped_images sample_fs ''/srv'' ''photo.jpg''
       = Inr (Response (path_join (path_join ''/srv'' ''images_scraped'') ''Photo.JPG'') ''jpg'')"
    by blast
  from fallback_serves_single_match_if_regular_file[OF wf m2 ls f2, of "''jpg''"] s2
  have c2: "serve_scraped_images sample_fs ''/srv'' ''albums'' = Inl NotFound"
    by blast
  from wf ls m1 f1 s1 m2 f2 s2 c1 c2 show ?thesis by blast
qed

text \<open>
  C3 without the condition on the entry fails: the only entry whose lower-case form is
  \<^verbatim>\<open>albums\<close> is the directory \<^verbatim>\<open>Albums\<close>; the loop takes it, the safe join succeeds, and
  \<^verbatim>\<open>send_from_directory\<close> then raises \<^verbatim>\<open>NotFound\<close>.
\<close>

theorem fallback_directory_entry_counterexample:
  "not_a_file sample_fs (safe_join (path_join ''/srv'' ''images_scraped'') (unquote ''albums''))
       = Inr True
   \<and> os_listdir sample_fs (path_join ''/srv'' ''images_scraped'')
       = Inr [''Photos'', ''photos'', ''Photo.JPG'', ''Albums'', ''sub'', ''a%20b.jpg'']
   \<and> filter (matches_lower (unquote ''albums''))
        [''Photos'', ''photos'', ''Photo.JPG'', ''Albums'', ''sub'', ''a%20b.jpg''] = [''Albums'']
   \<and> safe_join (path_join ''/srv'' ''images_scraped'') ''Albums''
       = Some ''/srv/images_scraped/Albums''
   \<and> serve_scraped_images sample_fs ''/srv'' ''albums'' = Inl NotFound"
  by code_simp

section \<open>Requests for a directory\<close>

lemma not_a_file_Dir:
  "os_stat fs sp = Inr (Dir r es) \<Longrightarrow> not_a_file fs (Some sp) = Inr True"
  by (simp add: not_a_file_def os_path_exists_def os_path_isfile_def)

text \<open>
  C4, as the handlers have it. Let the safely joined path be an existing directory.
  The handler of the root files answers \<^verbatim>\<open>NotFound\<close>. The handler of the images goes on
  to its case-insensitive search: it answers with the first entry of the image directory
  whose lower-case form is that of the decoded name when that entry is a regular file,
  and with \<^verbatim>\<open>NotFound\<close> in every other case (no such entry, an entry that is not a regular
  file, a directory that cannot be listed). Either way the body of a response is the
  content of a regular file, never a listing.
\<close>

theorem directory_request_never_lists:
  "(safe_join root requested = Some sp \<and> os_stat fs sp = Inr (Dir r es)
      \<longrightarrow> serve_root_files fs root (Some requested) = Inl NotFound)
   \<and> (wf_node fs \<and> safe_join (path_join root ''images_scraped'') (unquote filename) = Some sp'
        \<and> os_stat fs sp' = Inr (Dir r' es')
      \<longrightarrow> serve_scraped_images fs root filename =
          (case os_listdir fs (path_join root ''images_scraped'') of
             Inl e \<Rightarrow> Inl NotFound
           | Inr names \<Rightarrow>
               (case find (matches_lower (unquote filename)) names of
                  None \<Rightarrow> Inl NotFound
                | Some entry \<Rightarrow>
                    (case os_stat fs (path_join (path_join root ''images_scraped'') entry) of
                       Inr (File b) \<Rightarrow>
                         Inr (Response (path_join (path_join root ''images_scraped'') entry) b)
                     | _ \<Rightarrow> Inl NotFound))))"
proof (intro conjI impI)
  assume "safe_join root requested = Some sp \<and> os_stat fs sp = Inr (Dir r es)"
  then have "root_files_body fs root requested = Inl NotFound"
    by (intro root_files_body_not_file[of root requested sp]) auto
  then show "serve_root_files fs root (Some requested) = Inl NotFound"
    by (simp add: serve_root_files_def except_abort_404_def)
next
  assume a: "wf_node fs \<and> safe_join (path_join root ''images_scraped'') (unquote filename) = Some sp'
        \<and> os_stat fs sp' = Inr (Dir r' es')"
  then have "not_a_file fs (safe_join (path_join root ''images_scraped'') (unquote filename))
      = Inr True"
    by (simp add: not_a_file_Dir)
  with a show "serve_scraped_images fs root filename =
          (case os_listdir fs (path_join root ''images_scraped'') of
             Inl e \<Rightarrow> Inl NotFound
           | Inr names \<Rightarrow>
               (case find (matches_lower (unquote filename)) names of
                  None \<Rightarrow> Inl NotFound
                | Some entry \<Rightarrow>
                    (case os_stat fs (path_join (path_join root ''images_scraped'') entry) of
                       Inr (File b) \<Rightarrow>
                         Inr (Response (path_join (path_join root ''images_scraped'') entry) b)
                     | _ \<Rightarrow> Inl NotFound)))"
    by (intro serve_scraped_images_fallback) auto
qed

theorem directory_request_never_lists_witness:
  "safe_join ''/srv'' ''css'' = Some ''/srv/css''
   \<and> os_stat sample_fs ''/srv/css'' = Inr (Dir True [(''a.css'', File ''body{}'')])
   \<and> serve_root_files sample_fs ''/srv'' (Some ''css'') = Inl NotFound
   \<and> wf_node sample_fs
   \<and> safe_join (path_join ''/srv'' ''images_scraped'') (unquote ''Albums'')
       = Some ''/srv/images_scraped/Albums''
   \<and> os_stat sample_fs ''/srv/images_scraped/Albums'' = Inr (Dir True [])
   \<and> serve_scraped_images sample_fs ''/srv'' ''Albums'' = Inl NotFound"
proof -
  have h1: "safe_join ''/srv'' ''css'' = Some ''/srv/css''" by code_simp
  have h2: "os_stat sample_fs ''/srv/css'' = Inr (Dir True [(''a.css'', File ''body{}'')])"
    by code_simp
  have h3: "wf_node sample_fs" by code_simp
  have h4: "safe_join (path_join ''/srv'' ''images_scraped'') (unquote ''Albums'')
       = Some ''/srv/images_scraped/Albums''" by code_simp
  have h5: "os_stat sample_fs ''/srv/images_scraped/Albums'' = Inr (Dir True [])"
    by code_simp
  have e: "(case os_listdir sample_fs (path_join ''/srv'' ''images_scraped'') of
             Inl e \<Rightarrow> Inl NotFound
           | Inr names \<Rightarrow>
               (case find (matches_lower (unquote ''Albums'')) names of
                  None \<Rightarrow> Inl NotFound
                | Some entry \<Rightarrow>
                    (case os_stat sample_fs (path_join (path_join ''/srv'' ''images_scraped'') entry) of
                       Inr (File b) \<Rightarrow>
                         Inr (Response (path_join (path_join ''/srv'' ''images_scraped'') entry) b)
                     | _ \<Rightarrow> Inl NotFound))) = Inl NotFound"
    by code_simp
  note t = directory_request_never_lists[of "''/srv''" "''css''" "''/srv/css''" sample_fs True
      "[(''a.css'', File ''body{}'')]" "''Albums''" "''/srv/images_scraped/Albums''" True "[]"]
  from t h1 h2 have c1: "serve_root_files sample_fs ''/srv'' (Some ''css'') = Inl NotFound"
    by blast
  from t h3 h4 h5 e have c2: "serve_scraped_images sample_fs ''/srv'' ''Albums'' = Inl NotFound"
    by simp
  from h1 h2 h3 h4 h5 c1 c2 show ?thesis by blast
qed

text \<open>
  C4 for the image handler, as stated, fails: \<^verbatim>\<open>photos\<close> is a directory of the image
  directory, and the request \<^verbatim>\<open>photos\<close> is answered with the regular file \<^verbatim>\<open>Photos\<close>,
  which the listing reports first.
\<close>

theorem directory_request_served_counterexample:
  "safe_join (path_join ''/srv'' ''images_scraped'') (unquote ''photos'')
       = Some ''/srv/images_scraped/photos''
   \<and> os_stat sample_fs ''/srv/images_scraped/photos'' = Inr (Dir True [])
   \<and> serve_scraped_images sample_fs ''/srv'' ''photos''
       = Inr (Response ''/srv/images_scraped/Photos'' ''P'')"
  by code_simp

section \<open>Every error ends as a 404\<close>

lemma wsgi_response_except_abort_404:
  "wsgi_response (except_abort_404 r) = HTTP_404
   \<or> (\<exists>p b. r = Inr (Response p b) \<and> wsgi_response (except_abort_404 r) = HTTP_200 p b)"
proof (cases r)
  case (Inl e)
  then show ?thesis by (simp add: except_abort_404_def wsgi_response_def)
next
  case (Inr v)
  then show ?thesis by (cases v) (simp add: except_abort_404_def wsgi_response_def)
qed

text \<open>
  C5. Whatever the tree, the project root and the request, each handler ends in one of
  two ways: the 404 page, or a 200 response carrying the bytes of a regular file of the
  tree. No exception other than the \<^verbatim>\<open>NotFound\<close> of \<^verbatim>\<open>abort(404)\<close> leaves a handler (there
  is no 500 page), and whenever the body of a \<^verbatim>\<open>try\<close> raises anything at all (the
  \<^verbatim>\<open>TypeError\<close> of a failed safe join, the \<^verbatim>\<open>OSError\<close> of a directory that is missing or
  may not be read, a \<^verbatim>\<open>NotFound\<close>) the answer is the 404 page of a missing file.
\<close>

theorem handlers_answer_file_or_404:
  "(wsgi_response (serve_root_files fs root arg) = HTTP_404
      \<or> (\<exists>p b. wsgi_response (serve_root_files fs root arg) = HTTP_200 p b
                \<and> os_stat fs p = Inr (File b)))
   \<and> (wsgi_response (serve_scraped_images fs root filename) = HTTP_404
      \<or> (\<exists>p b. wsgi_response (serve_scraped_images fs root filename) = HTTP_200 p b
                \<and> os_stat fs p = Inr (File b)))
   \<and> (root_files_body fs root requested = Inl e
        \<longrightarrow> wsgi_response (serve_root_files fs root (Some requested)) = HTTP_404)
   \<and> (scraped_images_body fs (path_join root ''images_scraped'') (unquote filename) = Inl e'
        \<longrightarrow> wsgi_response (serve_scraped_images fs root filename) = HTTP_404)"
proof (intro conjI impI)
  let ?r = "root_files_body fs root (case arg of None \<Rightarrow> ''index.html'' | Some f \<Rightarrow> f)"
  from wsgi_response_except_abort_404[of ?r]
  show "wsgi_response (serve_root_files fs root arg) = HTTP_404
      \<or> (\<exists>p b. wsgi_response (serve_root_files fs root arg) = HTTP_200 p b
                \<and> os_stat fs p = Inr (File b))"
    unfolding serve_root_files_def Let_def
    using root_files_body_Response by blast
next
  let ?r = "scraped_images_body fs (path_join root ''images_scraped'') (unquote filename)"
  from wsgi_response_except_abort_404[of ?r]
  show "wsgi_response (serve_scraped_images fs root filename) = HTTP_404
      \<or> (\<exists>p b. wsgi_response (serve_scraped_images fs root filename) = HTTP_200 p b
                \<and> os_stat fs p = Inr (File b))"
    unfolding serve_scraped_images_def Let_def
    using scraped_images_body_Response by blast
next
  assume "root_files_body fs root requested = Inl e"
  then show "wsgi_response (serve_root_files fs root (Some requested)) = HTTP_404"
    by (simp add: serve_root_files_def except_abort_404_def wsgi_response_def)
next
  assume "scraped_images_body fs (path_join root ''images_scraped'') (unquote filename) = Inl e'"
  then show "wsgi_response (serve_scraped_images fs root filename) = HTTP_404"
    by (simp add: serve_scraped_images_def except_abort_404_def wsgi_response_def)
qed

theorem handlers_answer_file_or_404_witness:
  "root_files_body sample_fs ''/srv'' ''../etc/passwd'' = Inl TypeError
   \<and> wsgi_response (serve_root_files sample_fs ''/srv'' (Some ''../etc/passwd'')) = HTTP_404
   \<and> scraped_images_body unreadable_fs (path_join ''/srv'' ''images_scraped'') (unquote ''a.jpg'')
       = Inl OSError
   \<and> wsgi_response (serve_scraped_images unreadable_fs ''/srv'' ''a.jpg'') = HTTP_404"
proof -
  have h1: "root_files_body sample_fs ''/srv'' ''../etc/passwd'' = Inl TypeError"
    by code_simp
  have h2: "scraped_images_body unreadable_fs (path_join ''/srv'' ''images_scraped'')
              (unquote ''a.jpg'') = Inl OSError"
    by code_simp
  from handlers_answer_file_or_404[of sample_fs "''/srv''" None "''a.jpg''"
         "''../etc/passwd''" TypeError] h1
  have c1: "wsgi_response (serve_root_files sample_fs ''/srv'' (Some ''../etc/passwd'')) = HTTP_404"
    by blast
  from handlers_answer_file_or_404[of unreadable_fs "''/srv''" None "''a.jpg''"
         "''x''" OSError OSError] h2
  have c2: "wsgi_response (serve_scraped_images unreadable_fs ''/srv'' ''a.jpg'') = HTTP_404"
    by blast
  from h1 h2 c1 c2 show ?thesis by blast
qed

section \<open>Existing regular files\<close>

text \<open>
  A regular file below the project root is served by \<^verbatim>\<open>serve_root_files\<close> under its
  canonical relative path, and a regular file directly in the image directory is served
  by \<^verbatim>\<open>serve_scraped_images\<close> under its name.
\<close>

lemma root_serves_existing_file:
  assumes "canonical_relative comps" "root \<noteq> []"
    and "os_stat fs (path_join root (str_join [sep] comps)) = Inr (File b)"
  shows "serve_root_files fs root (Some (str_join [sep] comps))
     = Inr (Response (path_join root (str_join [sep] comps)) b)"
  using root_files_body_file[OF safe_join_canonical[OF assms(1,2)] assms(3)]
  by (simp add: serve_root_files_def except_abort_404_def)

lemma image_serves_existing_top_level_file:
  assumes "clean f" "sep \<notin> set f" "unquote filename = f"
    and "os_stat fs (path_join (path_join root ''images_scraped'') f) = Inr (File b)"
  shows "serve_scraped_images fs root filename
     = Inr (Response (path_join (path_join root ''images_scraped'') f) b)"
  using safe_join_name[OF assms(1,2) image_dir_not_empty, of root] assms(3,4)
    basename_path_join[OF assms(2), of "path_join root ''images_scraped''"]
  by (simp add: serve_scraped_images_def scraped_images_body_def except_abort_404_def
      not_a_file_def os_path_exists_def os_path_isfile_def send_from_directory_def)

text \<open>
  C6 fails for the image handler on a file in a subdirectory of the image directory. The
  handler finds \<^verbatim>\<open>sub/a.jpg\<close>, then calls \<^verbatim>\<open>send_from_directory\<close> with the base name of
  the path it found: it answers \<^verbatim>\<open>NotFound\<close> when the image directory has no \<^verbatim>\<open>a.jpg\<close> of
  its own, and sends that other file when it has one. \<^verbatim>\<open>serve_root_files\<close> hands the
  whole relative path on and serves the nested file.
\<close>

theorem nested_image_file_is_not_served:
  "os_stat sample_fs (path_join (path_join ''/srv'' ''images_scraped'')
         (str_join [sep] [''sub'', ''a.jpg''])) = Inr (File ''nested'')
   \<and> serve_scraped_images sample_fs ''/srv'' (str_join [sep] [''sub'', ''a.jpg'']) = Inl NotFound
   \<and> os_stat shadow_fs (path_join (path_join ''/srv'' ''images_scraped'')
         (str_join [sep] [''sub'', ''a.jpg''])) = Inr (File ''nested'')
   \<and> serve_scraped_images shadow_fs ''/srv'' (str_join [sep] [''sub'', ''a.jpg''])
       = Inr (Response ''/srv/images_scraped/a.jpg'' ''top'')
   \<and> serve_root_files sample_fs ''/srv'' (Some ''images_scraped/sub/a.jpg'')
       = Inr (Response ''/srv/images_scraped/sub/a.jpg'' ''nested'')"
  by code_simp

section \<open>The default file name\<close>

lemma canonical_index: "canonical_relative [''index.html'']"
  by (simp add: canonical_relative_def clean_def sep_def)

lemma safe_join_index:
  "root \<noteq> [] \<Longrightarrow> safe_join root ''index.html'' = Some (path_join root ''index.html'')"
  using safe_join_canonical[OF canonical_index] by simp

text \<open>
  C7. The route \<^verbatim>\<open>/\<close>, whose requested path is empty, calls \<^verbatim>\<open>serve_root_files\<close>
  without an argument, and the default \<^verbatim>\<open>index.html\<close> applies: the answer is the file
  \<^verbatim>\<open>index.html\<close> of the project root when that is a regular file, and \<^verbatim>\<open>NotFound\<close>
  otherwise. Only \<^verbatim>\<open>serve_root_files\<close> has a default; \<^verbatim>\<open>serve_scraped_images\<close> always
  takes the name from its route.
\<close>

theorem empty_request_serves_index_html:
  assumes "root \<noteq> []"
  shows "(os_stat fs (path_join root ''index.html'') = Inr (File b)
            \<longrightarrow> route_root fs root [] = Inr (Response (path_join root ''index.html'') b))
       \<and> ((\<forall>b'. os_stat fs (path_join root ''index.html'') \<noteq> Inr (File b'))
            \<longrightarrow> route_root fs root [] = Inl NotFound)"
  using safe_join_index[OF assms]
  by (simp add: route_root_def serve_root_files_def root_files_body_file
      root_files_body_not_file except_abort_404_def)

theorem empty_request_serves_index_html_witness:
  "''/srv'' \<noteq> []
   \<and> os_stat sample_fs (path_join ''/srv'' ''index.html'') = Inr (File ''<html>'')
   \<and> route_root sample_fs ''/srv'' [] = Inr (Response (path_join ''/srv'' ''index.html'') ''<html>'')
   \<and> (\<forall>b'. os_stat bare_fs (path_join ''/srv'' ''index.html'') \<noteq> Inr (File b'))
   \<and> route_root bare_fs ''/srv'' [] = Inl NotFound"
proof -
  have r: "''/srv'' \<noteq> []" by simp
  have h1: "os_stat sample_fs (path_join ''/srv'' ''index.html'') = Inr (File ''<html>'')"
    by code_simp
  have "os_stat bare_fs (path_join ''/srv'' ''index.html'') = Inl OSError"
    by code_simp
  then have h2: "\<forall>b'. os_stat bare_fs (path_join ''/srv'' ''index.html'') \<noteq> Inr (File b')"
    by simp
  from empty_request_serves_index_html[OF r, of sample_fs "''<html>''"] h1
  have c1: "route_root sample_fs ''/srv'' []
      = Inr (Response (path_join ''/srv'' ''index.html'') ''<html>'')"
    by blast
  from empty_request_serves_index_html[OF r, of bare_fs "''<html>''"] h2
  have c2: "route_root bare_fs ''/srv'' [] = Inl NotFound"
    by blast
  from r h1 h2 c1 c2 show ?thesis by blast
qed

section \<open>Determinism\<close>

text \<open>
  Resolution below a directory never looks above it: without \<^verbatim>\<open>..\<close> among the
  components, the walk from a directory depends on that directory alone.
\<close>

lemma walk_append:
  "walk st (cs1 @ cs2) = (case walk st cs1 of None \<Rightarrow> None | Some st' \<Rightarrow> walk st' cs2)"
proof (induction st cs1 rule: walk.induct)
  case (1 st)
  then show ?case by simp
next
  case (2 c cs)
  then show ?case by simp
next
  case (3 b up c cs)
  then show ?case by simp
next
  case (4 r es up c cs)
  show ?case
  proof (cases "c = [] \<or> c = ''.''")
    case True
    with "4.IH"(1) show ?thesis by simp
  next
    case nd: False
    show ?thesis
    proof (cases "c = ''..''")
      case True
      with nd "4.IH"(2) show ?thesis by simp
    next
      case False
      show ?thesis
      proof (cases "map_of es c")
        case None
        with nd False show ?thesis by simp
      next
        case (Some n)
        with nd False "4.IH"(3)[OF nd False Some] show ?thesis by simp
      qed
    qed
  qed
qed

lemma walk_below:
  "''..'' \<notin> set cs \<Longrightarrow> st \<noteq> []
   \<Longrightarrow> walk (st @ up) cs = map_option (\<lambda>s. s @ up) (walk st cs)"
proof (induction st cs rule: walk.induct)
  case (1 st)
  then show ?case by simp
next
  case (2 c cs)
  then show ?case by simp
next
  case (3 b up' c cs)
  then show ?case by simp
next
  case (4 r es up' c cs)
  from "4.prems" have nd: "c \<noteq> ''..''" and rest: "''..'' \<notin> set cs" by auto
  show ?case
  proof (cases "c = [] \<or> c = ''.''")
    case True
    with "4.IH"(1)[OF True rest] show ?thesis by simp
  next
    case False
    show ?thesis
    proof (cases "map_of es c")
      case None
      with False nd show ?thesis by simp
    next
      case (Some n)
      with False nd "4.IH"(3)[OF False nd Some rest] show ?thesis by simp
    qed
  qed
qed

lemma walk_not_Nil: "st \<noteq> [] \<Longrightarrow> walk st cs = Some st' \<Longrightarrow> st' \<noteq> []"
proof (induction st cs arbitrary: st' rule: walk.induct)
  case (4 r es up c cs)
  show ?case
  proof (cases "c = [] \<or> c = ''.''")
    case True
    with "4.prems"(2) have "walk (Dir r es # up) cs = Some st'" by simp
    from "4.IH"(1)[OF True _ this] show ?thesis by simp
  next
    case nd: False
    show ?thesis
    proof (cases "c = ''..''")
      case True
      with nd "4.prems"(2) have "walk (if up = [] then [Dir r es] else up) cs = Some st'" by simp
      from "4.IH"(2)[OF nd True _ this] show ?thesis by simp
    next
      case False
      with nd "4.prems"(2) obtain n where n: "map_of es c = Some n"
        "walk (n # Dir r es # up) cs = Some st'"
        by (cases "map_of es c") simp_all
      from "4.IH"(3)[OF nd False n(1) _ n(2)] show ?thesis by simp
    qed
  qed
qed simp_all

lemma walk_empty_component: "cs \<noteq> [] \<Longrightarrow> walk st ([] # cs) = walk st cs"
proof (cases st)
  case Nil
  assume "cs \<noteq> []"
  with Nil show ?thesis by (cases cs) simp_all
next
  case (Cons n up)
  assume "cs \<noteq> []"
  with Cons show ?thesis by (cases n; cases cs) simp_all
qed


lemma walk_under_root:
  assumes "root \<noteq> []"
  shows "walk st (str_split sep (path_join root [] @ n))
     = (case walk st (str_split sep root) of
          None \<Rightarrow> None
        | Some st' \<Rightarrow> walk st' (str_split sep n))"
proof (cases "endswith root [sep]")
  case True
  then obtain d' where d: "root = d' @ [sep]" by (auto simp: endswith_sep)
  have ne: "str_split sep n \<noteq> []" by simp
  have "walk st (str_split sep (d' @ sep # n))
      = (case walk st (str_split sep d') of None \<Rightarrow> None
         | Some st' \<Rightarrow> walk st' (str_split sep n))"
    by (simp only: str_split_append walk_append)
  also have "\<dots> = (case walk st (str_split sep d') of None \<Rightarrow> None
         | Some st' \<Rightarrow> walk st' ([] # str_split sep n))"
    by (simp only: walk_empty_component[OF ne])
  also have "\<dots> = (case walk st (str_split sep d' @ [[]]) of None \<Rightarrow> None
         | Some st' \<Rightarrow> walk st' (str_split sep n))"
    using walk_append[of _ "[[]]" "str_split sep n"]
    by (simp add: walk_append split: option.splits)
  also have "str_split sep d' @ [[]] = str_split sep root"
    using str_split_append[of sep d' "[]"] d by simp
  finally show ?thesis using True d assms by (simp add: path_join_def startswith_def)
next
  case False
  then have "path_join root [] @ n = root @ sep # n"
    using assms by (simp add: path_join_def startswith_def)
  then show ?thesis by (simp only: str_split_append walk_append)
qed

lemma os_stat_under_root:
  assumes "root \<noteq> []" "''..'' \<notin> set (str_split sep n)"
  shows "os_stat fs (path_join root [] @ n)
     = (if CHR 0x00 \<in> set root \<or> CHR 0x00 \<in> set n then Inl ValueError
        else (case os_stat fs root of
                Inl e \<Rightarrow> Inl OSError
              | Inr node \<Rightarrow>
                  (case walk [node] (str_split sep n) of
                     Some (m # up) \<Rightarrow> Inr m
                   | _ \<Rightarrow> Inl OSError)))"
proof -
  let ?p = "path_join root [] @ n"
  have set_p: "set ?p = set root \<union> set n \<or> set ?p = set root \<union> {sep} \<union> set n"
    using assms(1) by (auto simp: path_join_def startswith_def)
  have nul: "CHR 0x00 \<in> set ?p \<longleftrightarrow> CHR 0x00 \<in> set root \<or> CHR 0x00 \<in> set n"
    using set_p by (auto simp: sep_def)
  have pne: "?p \<noteq> []" using assms(1) by (auto simp: path_join_def startswith_def)
  show ?thesis
  proof (cases "CHR 0x00 \<in> set root \<or> CHR 0x00 \<in> set n")
    case True
    with nul show ?thesis by (simp add: os_stat_def)
  next
    case False
    show ?thesis
    proof (cases "walk [fs] (str_split sep root)")
      case None
      with False nul pne assms(1) walk_under_root[OF assms(1), of "[fs]" n] show ?thesis
        by (simp add: os_stat_def)
    next
      case (Some st)
      with walk_not_Nil[of "[fs]" "str_split sep root" st] obtain node up where
        st: "st = node # up" by (cases st) auto
      from walk_below[OF assms(2), of "[node]" up]
      have "walk (node # up) (str_split sep n)
          = map_option (\<lambda>s. s @ up) (walk [node] (str_split sep n))" by simp
      moreover have "walk [node] (str_split sep n) = Some s' \<Longrightarrow> s' \<noteq> []" for s'
        using walk_not_Nil[of "[node]"] by simp
      ultimately show ?thesis
        using Some st False nul pne assms(1) walk_under_root[OF assms(1), of "[fs]" n]
        by (auto simp: os_stat_def split: option.splits list.splits)
    qed
  qed
qed

lemma os_stat_inside_root:
  assumes "root \<noteq> []" "os_stat fs1 root = os_stat fs2 root" "inside_root root p"
  shows "os_stat fs1 p = os_stat fs2 p"
proof -
  from assms(1,3) obtain n where n: "p = path_join root [] @ n"
    "''..'' \<notin> set (str_split sep n)"
    by (auto simp: inside_root_def Let_def startswith_def)
      (metis append_take_drop_id)
  from os_stat_under_root[OF assms(1) n(2), of fs1] os_stat_under_root[OF assms(1) n(2), of fs2]
    assms(2) n(1)
  show ?thesis by simp
qed


lemma send_from_directory_cong:
  assumes "\<And>p. inside_root d p \<Longrightarrow> os_stat fs1 p = os_stat fs2 p"
  shows "send_from_directory fs1 d x = send_from_directory fs2 d x"
proof (cases "safe_join d x")
  case None
  then show ?thesis by (simp add: send_from_directory_def)
next
  case (Some sp)
  from assms[OF safe_join_inside[OF Some]] Some show ?thesis
    by (simp add: send_from_directory_def)
qed

lemma not_a_file_cong:
  assumes "\<And>p. inside_root d p \<Longrightarrow> os_stat fs1 p = os_stat fs2 p"
  shows "not_a_file fs1 (safe_join d x) = not_a_file fs2 (safe_join d x)"
proof (cases "safe_join d x")
  case None
  then show ?thesis by (simp add: not_a_file_None)
next
  case (Some sp)
  from assms[OF safe_join_inside[OF Some]]
  have "os_path_exists fs1 (Some sp) = os_path_exists fs2 (Some sp)"
    and "os_path_isfile fs1 (Some sp) = os_path_isfile fs2 (Some sp)"
    by (simp_all add: os_path_exists_def os_path_isfile_def)
  with Some show ?thesis by (simp only: not_a_file_def)
qed

lemma os_listdir_cong: "os_stat fs1 d = os_stat fs2 d \<Longrightarrow> os_listdir fs1 d = os_listdir fs2 d"
  by (simp add: os_listdir_def)

lemma root_files_body_cong:
  assumes "\<And>p. inside_root root p \<Longrightarrow> os_stat fs1 p = os_stat fs2 p"
  shows "root_files_body fs1 root f = root_files_body fs2 root f"
  unfolding root_files_body_def Let_def
  by (simp only: not_a_file_cong[of root fs1 fs2, OF assms]
      send_from_directory_cong[of root fs1 fs2, OF assms])

lemma scraped_images_body_cong:
  assumes "\<And>p. inside_root d p \<Longrightarrow> os_stat fs1 p = os_stat fs2 p"
    and "os_stat fs1 d = os_stat fs2 d"
  shows "scraped_images_body fs1 d x = scraped_images_body fs2 d x"
  unfolding scraped_images_body_def Let_def
  by (simp only: not_a_file_cong[of d fs1 fs2, OF assms(1)]
      send_from_directory_cong[of d fs1 fs2, OF assms(1)] os_listdir_cong[OF assms(2)])

lemma inside_root_image_dir: "root \<noteq> [] \<Longrightarrow> inside_root root (path_join root ''images_scraped'')"
  using inside_root_join[of "''images_scraped''" root] by (simp add: sep_def)

text \<open>
  C8. A handler is a function of the tree, the project root and the request, with no
  state of its own: the same request against the same tree gets the same answer. And the
  answer depends on the tree only through the project directory: two trees that have the
  same node at the project root (the same directory contents, in the same listing order)
  get the same answers from both handlers, whatever else differs around it.
\<close>

theorem resolve_is_deterministic:
  "(fs = fs' \<and> arg = arg' \<and> filename = filename'
      \<longrightarrow> serve_root_files fs root arg = serve_root_files fs' root arg'
        \<and> serve_scraped_images fs root filename = serve_scraped_images fs' root filename')
   \<and> (root \<noteq> [] \<and> os_stat fs1 root = os_stat fs2 root
      \<longrightarrow> serve_root_files fs1 root arg = serve_root_files fs2 root arg
        \<and> serve_scraped_images fs1 root filename = serve_scraped_images fs2 root filename)"
proof (intro conjI impI)
  assume "fs = fs' \<and> arg = arg' \<and> filename = filename'"
  then show "serve_root_files fs root arg = serve_root_files fs' root arg'"
    and "serve_scraped_images fs root filename = serve_scraped_images fs' root filename'"
    by simp_all
next
  assume a: "root \<noteq> [] \<and> os_stat fs1 root = os_stat fs2 root"
  then have in_root: "os_stat fs1 p = os_stat fs2 p" if "inside_root root p" for p
    using os_stat_inside_root[of root fs1 fs2 p] that by simp
  show "serve_root_files fs1 root arg = serve_root_files fs2 root arg"
    unfolding serve_root_files_def Let_def
    by (simp only: root_files_body_cong[of root fs1 fs2, OF in_root])
  let ?img = "path_join root ''images_scraped''"
  from a have img: "os_stat fs1 ?img = os_stat fs2 ?img"
    by (intro in_root inside_root_image_dir) simp
  have in_img: "os_stat fs1 p = os_stat fs2 p" if "inside_root ?img p" for p
    using os_stat_inside_root[OF image_dir_not_empty img that] .
  show "serve_scraped_images fs1 root filename = serve_scraped_images fs2 root filename"
    unfolding serve_scraped_images_def Let_def
    by (simp only: scraped_images_body_cong[of ?img fs1 fs2, OF in_img img])
qed

theorem resolve_is_deterministic_witness:
  "''/srv'' \<noteq> [] \<and> os_stat sample_fs ''/srv'' = os_stat other_fs ''/srv''
   \<and> sample_fs \<noteq> other_fs
   \<and> serve_root_files sample_fs ''/srv'' (Some ''css/a.css'')
       = serve_root_files other_fs ''/srv'' (Some ''css/a.css'')
   \<and> serve_scraped_images sample_fs ''/srv'' ''photo.jpg''
       = serve_scraped_images other_fs ''/srv'' ''photo.jpg''
   \<and> serve_root_files sample_fs ''/srv'' (Some ''css/a.css'')
       = serve_root_files sample_fs ''/srv'' (Some ''css/a.css'')
   \<and> serve_scraped_images sample_fs ''/srv'' ''photo.jpg''
       = serve_scraped_images sample_fs ''/srv'' ''photo.jpg''"
proof -
  have h1: "''/srv'' \<noteq> []" by simp
  have h2: "os_stat sample_fs ''/srv'' = os_stat other_fs ''/srv''" by code_simp
  have h3: "sample_fs \<noteq> other_fs" by (simp add: sample_fs_def other_fs_def)
  note t = resolve_is_deterministic[of sample_fs sample_fs "Some ''css/a.css''"
      "Some ''css/a.css''" "''photo.jpg''" "''photo.jpg''" "''/srv''" sample_fs other_fs]
  from t h1 h2 have c1: "serve_root_files sample_fs ''/srv'' (Some ''css/a.css'')
       = serve_root_files other_fs ''/srv'' (Some ''css/a.css'')"
    and c2: "serve_scraped_images sample_fs ''/srv'' ''photo.jpg''
       = serve_scraped_images other_fs ''/srv'' ''photo.jpg''"
    by blast+
  from t have c3: "serve_root_files sample_fs ''/srv'' (Some ''css/a.css'')
       = serve_root_files sample_fs ''/srv'' (Some ''css/a.css'')"
    and c4: "serve_scraped_images sample_fs ''/srv'' ''photo.jpg''
       = serve_scraped_images sample_fs ''/srv'' ''photo.jpg''"
    by blast+
  from h1 h2 h3 c1 c2 c3 c4 show ?thesis by blast
qed

section \<open>Nested names and the fallback\<close>

text \<open>
  C9. The search of the image handler compares the whole decoded name with the names of
  the immediate entries of the image directory. In a well-formed tree no entry name
  contains a slash, so a decoded name with a slash matches no entry, and when the direct
  lookup has not found a regular file the handler answers \<^verbatim>\<open>NotFound\<close>: there is no
  matching component by component.
\<close>

theorem fallback_never_matches_nested_path:
  assumes "wf_node fs" and "sep \<in> set (unquote filename)"
  shows "(os_listdir fs (path_join root ''images_scraped'') = Inr names
            \<longrightarrow> find (matches_lower (unquote filename)) names = None)
       \<and> (not_a_file fs (safe_join (path_join root ''images_scraped'') (unquote filename))
              \<noteq> Inr False
            \<longrightarrow> serve_scraped_images fs root filename = Inl NotFound)"
proof (intro conjI impI)
  assume "os_listdir fs (path_join root ''images_scraped'') = Inr names"
  from os_listdir_wf[OF assms(1) this] assms(2)
  show "find (matches_lower (unquote filename)) names = None"
    by (rule find_matches_nested)
next
  let ?img = "path_join root ''images_scraped''"
  assume nf: "not_a_file fs (safe_join ?img (unquote filename)) \<noteq> Inr False"
  show "serve_scraped_images fs root filename = Inl NotFound"
  proof (cases "not_a_file fs (safe_join ?img (unquote filename))")
    case (Inl e)
    then show ?thesis
      by (simp add: serve_scraped_images_def scraped_images_body_def except_abort_404_def)
  next
    case (Inr miss)
    with nf have miss: "not_a_file fs (safe_join ?img (unquote filename)) = Inr True"
      by (cases miss) simp_all
    show ?thesis
    proof (cases "os_listdir fs ?img")
      case (Inl e)
      with serve_scraped_images_fallback[OF assms(1) miss] show ?thesis by simp
    next
      case (Inr names)
      from os_listdir_wf[OF assms(1) Inr] assms(2)
      have "find (matches_lower (unquote filename)) names = None"
        by (rule find_matches_nested)
      with Inr serve_scraped_images_fallback[OF assms(1) miss] show ?thesis by simp
    qed
  qed
qed

theorem fallback_never_matches_nested_path_witness:
  "wf_node sample_fs \<and> sep \<in> set (unquote ''Sub/a.jpg'')
   \<and> os_listdir sample_fs (path_join ''/srv'' ''images_scraped'')
       = Inr [''Photos'', ''photos'', ''Photo.JPG'', ''Albums'', ''sub'', ''a%20b.jpg'']
   \<and> find (matches_lower (unquote ''Sub/a.jpg''))
        [''Photos'', ''photos'', ''Photo.JPG'', ''Albums'', ''sub'', ''a%20b.jpg''] = None
   \<and> not_a_file sample_fs (safe_join (path_join ''/srv'' ''images_scraped'') (unquote ''Sub/a.jpg''))
       \<noteq> Inr False
   \<and> serve_scraped_images sample_fs ''/srv'' ''Sub/a.jpg'' = Inl NotFound"
proof -
  have h1: "wf_node sample_fs" by code_simp
  have h2: "sep \<in> set (unquote ''Sub/a.jpg'')" by code_simp
  have h3: "os_listdir sample_fs (path_join ''/srv'' ''images_scraped'')
       = Inr [''Photos'', ''photos'', ''Photo.JPG'', ''Albums'', ''sub'', ''a%20b.jpg'']"
    by code_simp
  have "not_a_file sample_fs (safe_join (path_join ''/srv'' ''images_scraped'')
      (unquote ''Sub/a.jpg'')) = Inr True"
    by code_simp
  then have h4: "not_a_file sample_fs (safe_join (path_join ''/srv'' ''images_scraped'')
      (unquote ''Sub/a.jpg'')) \<noteq> Inr False"
    by simp
  note t = fallback_never_matches_nested_path[OF h1 h2, of "''/srv''"
      "[''Photos'', ''photos'', ''Photo.JPG'', ''Albums'', ''sub'', ''a%20b.jpg'']"]
  from t h3 have c1: "find (matches_lower (unquote ''Sub/a.jpg''))
        [''Photos'', ''photos'', ''Photo.JPG'', ''Albums'', ''sub'', ''a%20b.jpg''] = None"
    by blast
  from t h4 have c2: "serve_scraped_images sample_fs ''/srv'' ''Sub/a.jpg'' = Inl NotFound"
    by blast
  from h1 h2 h3 h4 c1 c2 show ?thesis by blast
qed

section \<open>The second decoding\<close>

lemma length_unquote_le: "length (unquote s) \<le> length s"
proof (induction "length s" arbitrary: s rule: less_induct)
  case less
  show ?case
  proof (cases s rule: unquote.cases)
    case (1 c h l rest)
    have l1: "length rest < length s" and l2: "length (h # l # rest) < length s"
      using 1 by simp_all
    have r: "length (unquote rest) \<le> length rest" by (rule less.hyps[OF l1])
    have t: "length (unquote (h # l # rest)) \<le> length (h # l # rest)"
      by (rule less.hyps[OF l2])
    from r t show ?thesis unfolding 1 unquote.simps(1)
      by (auto split: option.splits)
  qed simp_all
qed

lemma length_unquote_less: "has_escape s \<Longrightarrow> length (unquote s) < length s"
proof (induction "length s" arbitrary: s rule: less_induct)
  case less
  show ?case
  proof (cases s rule: unquote.cases)
    case (1 c h l rest)
    show ?thesis
    proof (cases "c = CHR ''%'' \<and> hex_digit h \<noteq> None \<and> hex_digit l \<noteq> None")
      case True
      then obtain a b where "hex_digit h = Some a" "hex_digit l = Some b" by auto
      with True length_unquote_le[of rest] show ?thesis unfolding 1 unquote.simps(1) by simp
    next
      case False
      with less.prems 1 have he: "has_escape (h # l # rest)" by auto
      from False have u: "unquote (c # h # l # rest) = c # unquote (h # l # rest)"
        unfolding unquote.simps(1) by (auto split: option.splits)
      have "length (h # l # rest) < length s" using 1 by simp
      from less.hyps[OF this he] have "length (unquote (h # l # rest)) < length (h # l # rest)" .
      with u show ?thesis unfolding 1 by simp
    qed
  qed (use less.prems in simp_all)
qed

lemma isabs_unquote: "isabs s \<Longrightarrow> isabs (unquote s)"
proof (cases s rule: unquote.cases)
  case (1 c h l rest)
  assume "isabs s"
  with 1 have "c = sep" by simp
  then show ?thesis unfolding 1 unquote.simps(1) by (simp add: sep_def)
qed (simp_all)


lemma weight_normpath_loop:
  "sum_list (map (\<lambda>x. Suc (length x)) (normpath_loop i cs acc))
   \<le> sum_list (map (\<lambda>x. Suc (length x)) acc) + sum_list (map (\<lambda>x. Suc (length x)) cs)"
proof (induction cs arbitrary: acc)
  case Nil
  then show ?case by simp
next
  case (Cons c cs)
  have bl: "sum_list (map (\<lambda>x. Suc (length x)) (butlast acc))
      \<le> sum_list (map (\<lambda>x. Suc (length x)) acc)"
    by (cases acc rule: rev_cases) simp_all
  from Cons[of acc] Cons[of "acc @ [c]"] Cons[of "butlast acc"] bl show ?case
    by (auto simp del: butlast.simps)
qed

lemma weight_str_join:
  "xs \<noteq> [] \<Longrightarrow> Suc (length (str_join [sep] xs)) = sum_list (map (\<lambda>x. Suc (length x)) xs)"
proof (induction xs)
  case Nil
  then show ?case by simp
next
  case (Cons x xs)
  then show ?case by (cases xs) simp_all
qed

lemma weight_str_split:
  "sum_list (map (\<lambda>x. Suc (length x)) (str_split sep s)) = Suc (length s)"
proof (induction s)
  case Nil
  then show ?case by simp
next
  case (Cons c s)
  obtain x xs where sp: "str_split sep s = x # xs" by (cases "str_split sep s") auto
  with Cons show ?case by auto
qed

lemma length_normpath_relative:
  assumes "f \<noteq> []" "\<not> isabs f"
  shows "length (normpath f) \<le> length f"
proof -
  let ?r = "normpath_loop 0 (str_split sep f) []"
  have np: "normpath f = (if str_join [sep] ?r = [] then ''.'' else str_join [sep] ?r)"
    using assms by (simp add: normpath_def Let_def isabs_def)
  show ?thesis
  proof (cases "str_join [sep] ?r = []")
    case True
    with np assms(1) show ?thesis by (cases f) simp_all
  next
    case False
    then have "?r \<noteq> []" by auto
    from weight_str_join[OF this] weight_normpath_loop[of 0 "str_split sep f" "[]"]
      weight_str_split[of f]
    have "length (str_join [sep] ?r) \<le> length f" by simp
    with np False show ?thesis by simp
  qed
qed

lemma path_join_empty_ends: "d \<noteq> [] \<Longrightarrow> \<exists>d'. path_join d [] = d' @ [sep]"
  by (auto simp: path_join_def startswith_def endswith_sep)

lemma safe_join_length:
  assumes "safe_join d f = Some p" "d \<noteq> []"
  shows "\<exists>m. p = path_join d [] @ m \<and> length m \<le> length f \<and> \<not> isabs m"
proof (cases "f = []")
  case True
  with assms show ?thesis by (auto simp: safe_join_def Let_def split: if_splits)
next
  case False
  with assms have na: "\<not> isabs (normpath f)" and p: "p = path_join d (normpath f)"
    by (auto simp: safe_join_def Let_def split: if_splits)
  from na have "\<not> isabs f" using normpath_absolute by blast
  from length_normpath_relative[OF False this] p path_join_relative[OF na, of d] na
  show ?thesis by auto
qed

lemma basename_after_sep: "basename (d' @ sep # m) = basename m"
proof (cases "sep \<in> set m")
  case True
  then have "takeWhile (\<lambda>c. c \<noteq> sep) (rev m @ sep # rev d') = takeWhile (\<lambda>c. c \<noteq> sep) (rev m)"
    by (intro takeWhile_append1[of sep]) auto
  then show ?thesis by (simp add: basename_def)
next
  case False
  then show ?thesis by (simp add: basename_append_sep basename_no_sep)
qed

lemma length_basename: "length (basename m) \<le> length m"
  using length_takeWhile_le[of "\<lambda>c. c \<noteq> sep" "rev m"] by (simp add: basename_def)

lemma send_after_safe_join_length:
  assumes "safe_join d f = Some sp" "d \<noteq> []"
    and "send_from_directory fs d (basename sp) = Inr (Response p b)"
  shows "\<exists>m. p = path_join d [] @ m \<and> length m \<le> length f"
proof -
  from safe_join_length[OF assms(1,2)] obtain n where
    n: "sp = path_join d [] @ n" "length n \<le> length f" by blast
  from path_join_empty_ends[OF assms(2)] obtain d' where "path_join d [] = d' @ [sep]" by blast
  with n(1) have "basename sp = basename n" by (simp add: basename_after_sep)
  with assms(3) obtain q where "safe_join d (basename n) = Some q" "q = p"
    by (auto simp: send_from_directory_def split: option.splits sum.splits node.splits)
  with safe_join_length[OF _ assms(2), of "basename n" p] obtain m where
    "p = path_join d [] @ m" "length m \<le> length (basename n)" by blast
  with n(2) length_basename[of n] show ?thesis by (intro exI[of _ m]) simp
qed

lemma scraped_images_body_length:
  assumes "scraped_images_body fs d decoded = Inr (Response p b)" "d \<noteq> []"
  shows "\<exists>m. p = path_join d [] @ m \<and> length m \<le> length decoded"
proof (cases "not_a_file fs (safe_join d decoded)")
  case (Inl e)
  with assms(1) show ?thesis by (simp add: scraped_images_body_def)
next
  case (Inr miss)
  show ?thesis
  proof (cases miss)
    case False
    with Inr assms(1) obtain sp where sp: "safe_join d decoded = Some sp"
      "send_from_directory fs d (basename sp) = Inr (Response p b)"
      by (auto simp: scraped_images_body_def split: option.splits)
    from send_after_safe_join_length[OF sp(1) assms(2) sp(2)] show ?thesis .
  next
    case True
    with Inr assms(1) obtain names f sp where f: "os_listdir fs d = Inr names"
      "find (matches_lower decoded) names = Some f" "safe_join d f = Some sp"
      "send_from_directory fs d (basename sp) = Inr (Response p b)"
      by (auto simp: scraped_images_body_def split: option.splits sum.splits)
    from f(2) have "matches_lower decoded f" by (auto simp: find_Some_iff)
    then have "length f = length decoded"
      using length_lower[of f] length_lower[of decoded] by (simp add: matches_lower_def)
    with send_after_safe_join_length[OF f(3) assms(2) f(4)] show ?thesis by simp
  qed
qed

text \<open>
  C10. \<^verbatim>\<open>serve_scraped_images\<close> passes its argument, which the framework has already
  decoded, through \<^verbatim>\<open>unquote\<close> once more and uses only the result: two arguments with the
  same decoded form get the same answer. A name with a percent escape differs from its
  decoded form, and the handler never sends the file of that literal name in the image
  directory in answer to a request for that name: neither the direct lookup nor the
  search looks at it.
\<close>

theorem image_handler_sees_only_the_decoded_name:
  "(unquote s1 = unquote s2
      \<longrightarrow> serve_scraped_images fs root s1 = serve_scraped_images fs root s2)
   \<and> (has_escape name
      \<longrightarrow> unquote name \<noteq> name
        \<and> (\<forall>b. serve_scraped_images fs root name
              \<noteq> Inr (Response (path_join (path_join root ''images_scraped'') name) b)))"
proof (intro conjI impI allI)
  assume "unquote s1 = unquote s2"
  then show "serve_scraped_images fs root s1 = serve_scraped_images fs root s2"
    by (simp add: serve_scraped_images_def)
next
  assume "has_escape name"
  from length_unquote_less[OF this] show "unquote name \<noteq> name" by auto
next
  fix b
  let ?img = "path_join root ''images_scraped''"
  assume he: "has_escape name"
  show "serve_scraped_images fs root name \<noteq> Inr (Response (path_join ?img name) b)"
  proof
    assume "serve_scraped_images fs root name = Inr (Response (path_join ?img name) b)"
    then have body: "scraped_images_body fs ?img (unquote name)
        = Inr (Response (path_join ?img name) b)"
      by (simp add: serve_scraped_images_def except_abort_404_Inr)
    have rel: "\<not> isabs name"
    proof
      assume "isabs name"
      then have "safe_join ?img (unquote name) = None"
        by (intro safe_join_rejects disjI2 isabs_unquote)
      with body show False by (simp add: scraped_images_body_rejects)
    qed
    from scraped_images_body_length[OF body image_dir_not_empty] obtain m where
      m: "path_join ?img name = path_join ?img [] @ m" "length m \<le> length (unquote name)"
      by blast
    from m(1) path_join_relative[OF rel, of ?img] have "m = name" by simp
    with m(2) length_unquote_less[OF he] show False by simp
  qed
qed

theorem image_handler_sees_only_the_decoded_name_witness:
  "unquote ''Photo%2EJPG'' = unquote ''Photo.JPG''
   \<and> serve_scraped_images sample_fs ''/srv'' ''Photo%2EJPG''
       = serve_scraped_images sample_fs ''/srv'' ''Photo.JPG''
   \<and> has_escape ''a%20b.jpg''
   \<and> unquote ''a%20b.jpg'' \<noteq> ''a%20b.jpg''
   \<and> os_stat sample_fs (path_join (path_join ''/srv'' ''images_scraped'') ''a%20b.jpg'')
       = Inr (File ''pct'')
   \<and> serve_scraped_images sample_fs ''/srv'' ''a%20b.jpg''
       \<noteq> Inr (Response (path_join (path_join ''/srv'' ''images_scraped'') ''a%20b.jpg'') ''pct'')"
proof -
  have h1: "unquote ''Photo%2EJPG'' = unquote ''Photo.JPG''" by code_simp
  have h2: "has_escape ''a%20b.jpg''" by code_simp
  have h3: "os_stat sample_fs (path_join (path_join ''/srv'' ''images_scraped'') ''a%20b.jpg'')
       = Inr (File ''pct'')" by code_simp
  note t = image_handler_sees_only_the_decoded_name[of "''Photo%2EJPG''" "''Photo.JPG''"
      sample_fs "''/srv''" "''a%20b.jpg''"]
  from t h1 have c1: "serve_scraped_images sample_fs ''/srv'' ''Photo%2EJPG''
       = serve_scraped_images sample_fs ''/srv'' ''Photo.JPG''" by blast
  from t h2 have c2: "unquote ''a%20b.jpg'' \<noteq> ''a%20b.jpg''" by blast
  from t h2 have c3: "serve_scraped_images sample_fs ''/srv'' ''a%20b.jpg''
       \<noteq> Inr (Response (path_join (path_join ''/srv'' ''images_scraped'') ''a%20b.jpg'') ''pct'')"
    by blast
  from h1 h2 h3 c1 c2 c3 show ?thesis by blast
qed


end
